theory Spec2Isabelle
  imports Complex_Main "HOL-Library.Sublist" "HOL-Library.Word"
begin

section \<open>Scale timelines (src/utils/spineParser.ts, getAnimationScaleFactor)\<close>

text \<open>
  JavaScript numbers are modelled as exact rationals (\<open>rat\<close>) where the source computes
  with fractions (key times, scale factors, percentages) and as \<open>int\<close> where it holds pixel
  counts; the rounding of double-precision arithmetic is modelled where a result depends
  on it, in the optimization planner. A scale key is a JSON object whose fields may be
  absent; an entry of the timeline array that is not an object (\<open>null\<close>, \<open>undefined\<close>,
  or an index past the end) is \<open>None\<close>.
\<close>

record ScaleKey =
  key_time :: "rat option"
  key_x :: "rat option"
  key_y :: "rat option"
  key_curve :: "string option"

record Scale =
  scale_x :: rat
  scale_y :: rat

text \<open>\<open>timeline[i]\<close>: reading past the end of a JavaScript array yields \<open>undefined\<close>.\<close>

definition at_index :: "'a option list \<Rightarrow> nat \<Rightarrow> 'a option" where
  "at_index xs i = (if i < length xs then xs ! i else None)"

definition identity :: Scale where
  "identity = \<lparr>scale_x = 1, scale_y = 1\<rparr>"

definition getTime :: "ScaleKey option \<Rightarrow> rat" where
  "getTime k = (case k of None \<Rightarrow> 0
                | Some key \<Rightarrow> (case key_time key of Some t \<Rightarrow> t | None \<Rightarrow> 0))"

definition getX :: "ScaleKey option \<Rightarrow> rat" where
  "getX k = (case k of None \<Rightarrow> 1
             | Some key \<Rightarrow> (case key_x key of Some v \<Rightarrow> v | None \<Rightarrow> 1))"

definition getY :: "ScaleKey option \<Rightarrow> rat" where
  "getY k = (case k of None \<Rightarrow> 1
             | Some key \<Rightarrow> (case key_y key of Some v \<Rightarrow> v | None \<Rightarrow> 1))"

text \<open>
  The search loop
  \<^verbatim>\<open>while (idx < timeline.length - 1 && getTime(timeline[idx+1]) <= time) idx++;\<close>
\<close>

function scanIdx :: "ScaleKey option list \<Rightarrow> rat \<Rightarrow> nat \<Rightarrow> nat" where
  "scanIdx timeline t idx =
     (if idx < length timeline - 1 \<and> getTime (at_index timeline (idx + 1)) \<le> t
      then scanIdx timeline t (idx + 1) else idx)"
  by pat_completeness auto
termination
  by (relation "measure (\<lambda>(timeline, t, idx). length timeline - idx)") auto

declare scanIdx.simps [simp del]

definition getAnimationScaleFactor :: "ScaleKey option list \<Rightarrow> rat \<Rightarrow> Scale" where
  "getAnimationScaleFactor timeline t =
     (if length timeline = 0 then identity
      else if t < getTime (at_index timeline 0) then identity
      else
        let lastIndex = length timeline - 1 in
        if t \<ge> getTime (at_index timeline lastIndex) then
          (let last = at_index timeline lastIndex in
           if last = None then identity
           else \<lparr>scale_x = getX last, scale_y = getY last\<rparr>)
        else
          let idx = scanIdx timeline t 0;
              prev = at_index timeline idx;
              next = at_index timeline (idx + 1)
          in
          if prev = None then identity
          else
            let prevX = getX prev; prevY = getY prev in
            if next = None then \<lparr>scale_x = prevX, scale_y = prevY\<rparr>
            else if Option.bind prev key_curve = Some ''stepped''
              then \<lparr>scale_x = prevX, scale_y = prevY\<rparr>
            else
              let prevTime = getTime prev;
                  nextTime = getTime next;
                  nextX = getX next;
                  nextY = getY next;
                  duration = nextTime - prevTime;
                  percent = (if duration > 0 then (t - prevTime) / duration else 0)
              in \<lparr>scale_x = prevX + (nextX - prevX) * percent,
                  scale_y = prevY + (nextY - prevY) * percent\<rparr>)"

section \<open>Properties of the scale timeline\<close>

lemma scanIdx_sorted:
  assumes "sorted (map getTime timeline)"
    and "i + 1 < length timeline"
    and "getTime (timeline ! i) \<le> t"
    and "t < getTime (timeline ! (i + 1))"
    and "idx \<le> i"
  shows "scanIdx timeline t idx = i"
  using assms
proof (induction "i - idx" arbitrary: idx)
  case 0
  then have "idx = i" by simp
  with 0 show ?case
    by (subst scanIdx.simps) (simp add: at_index_def)
next
  case (Suc d)
  then have lt: "idx < i" by simp
  have "map getTime timeline ! (idx + 1) \<le> map getTime timeline ! i"
    using Suc.prems(1,2) lt by (intro sorted_nth_mono) simp_all
  then have "getTime (timeline ! (idx + 1)) \<le> getTime (timeline ! i)"
    using Suc.prems(2) lt by simp
  then have le: "getTime (timeline ! (idx + 1)) \<le> t"
    using Suc.prems(3) by simp
  have inside: "idx < length timeline - 1"
    using lt Suc.prems(2) by arith
  have inside': "idx + 1 < length timeline"
    using lt Suc.prems(2) by arith
  have "scanIdx timeline t idx = scanIdx timeline t (idx + 1)"
    using inside inside' le by (subst scanIdx.simps) (simp add: at_index_def)
  also have "\<dots> = i"
    using Suc lt by (intro Suc.hyps(1)) simp_all
  finally show ?case .
qed

text \<open>
  C9. For a non-empty scale timeline and a sample time strictly earlier than the time of
  the first key, the scale factor returned is the identity \<open>(1, 1)\<close>, whatever the first
  key's values are.
\<close>

theorem scale_before_first_key_is_identity:
  assumes "timeline \<noteq> []"
    and "t < getTime (timeline ! 0)"
  shows "getAnimationScaleFactor timeline t = \<lparr>scale_x = 1, scale_y = 1\<rparr>"
  using assms by (simp add: getAnimationScaleFactor_def at_index_def identity_def)

theorem scale_before_first_key_is_identity_witness:
  "[Some \<lparr>key_time = Some 2, key_x = Some 5, key_y = Some 7, key_curve = None\<rparr>] \<noteq> []
   \<and> (1::rat) < getTime ([Some \<lparr>key_time = Some 2, key_x = Some 5, key_y = Some 7,
          key_curve = None\<rparr>] ! 0)
   \<and> getAnimationScaleFactor
        [Some \<lparr>key_time = Some 2, key_x = Some 5, key_y = Some 7, key_curve = None\<rparr>] 1
      = \<lparr>scale_x = 1, scale_y = 1\<rparr>"
  using scale_before_first_key_is_identity
    [of "[Some \<lparr>key_time = Some 2, key_x = Some 5, key_y = Some 7, key_curve = None\<rparr>]" 1]
  by (simp add: getTime_def)

text \<open>
  C7. On a timeline whose key times are in non-decreasing order, a sample time \<open>t\<close>
  with \<open>time\<^sub>i \<le> t < time\<^sub>i\<^sub>+\<^sub>1\<close> for two successive keys yields the linear
  interpolation of the two keys' values, unless the earlier key carries the curve
  \<open>"stepped"\<close>, in which case the earlier key's value is returned. In particular, for the
  keys \<open>(t=0, x=1, stepped)\<close> and \<open>(t=1, x=4)\<close> the scale sampled at \<open>0.5\<close> is \<open>1\<close>
  and the scale sampled at \<open>1\<close> is \<open>4\<close>.
\<close>

theorem scale_between_keys:
  "(\<forall>timeline t i p n.
      sorted (map getTime timeline) \<and> i + 1 < length timeline
      \<and> timeline ! i = Some p \<and> timeline ! (i + 1) = Some n
      \<and> getTime (Some p) \<le> t \<and> t < getTime (Some n)
      \<longrightarrow> getAnimationScaleFactor timeline t =
           (if key_curve p = Some ''stepped''
            then \<lparr>scale_x = getX (Some p), scale_y = getY (Some p)\<rparr>
            else \<lparr>scale_x = getX (Some p) + (getX (Some n) - getX (Some p))
                      * ((t - getTime (Some p)) / (getTime (Some n) - getTime (Some p))),
                  scale_y = getY (Some p) + (getY (Some n) - getY (Some p))
                      * ((t - getTime (Some p)) / (getTime (Some n) - getTime (Some p)))\<rparr>))
   \<and> scale_x (getAnimationScaleFactor
        [Some \<lparr>key_time = Some 0, key_x = Some 1, key_y = None, key_curve = Some ''stepped''\<rparr>,
         Some \<lparr>key_time = Some 1, key_x = Some 4, key_y = None, key_curve = None\<rparr>] (1/2)) = 1
   \<and> scale_x (getAnimationScaleFactor
        [Some \<lparr>key_time = Some 0, key_x = Some 1, key_y = None, key_curve = Some ''stepped''\<rparr>,
         Some \<lparr>key_time = Some 1, key_x = Some 4, key_y = None, key_curve = None\<rparr>] 1) = 4"
proof (intro conjI allI impI)
  fix timeline t i p n
  assume a: "sorted (map getTime timeline) \<and> i + 1 < length timeline
      \<and> timeline ! i = Some p \<and> timeline ! (i + 1) = Some n
      \<and> getTime (Some p) \<le> t \<and> t < getTime (Some n)"
  then have srt: "sorted (map getTime timeline)" and len: "i + 1 < length timeline"
    and p: "timeline ! i = Some p" and n: "timeline ! (i + 1) = Some n"
    and lo: "getTime (Some p) \<le> t" and hi: "t < getTime (Some n)" by simp_all
  have idx: "scanIdx timeline t 0 = i"
    using srt len lo hi p n by (intro scanIdx_sorted) simp_all
  have first: "getTime (timeline ! 0) \<le> t"
  proof -
    have "map getTime timeline ! 0 \<le> map getTime timeline ! i"
      using srt len by (intro sorted_nth_mono) simp_all
    moreover have "timeline \<noteq> []" "i < length timeline" using len by auto
    ultimately show ?thesis using lo p by simp
  qed
  have last: "t < getTime (timeline ! (length timeline - 1))"
  proof -
    have "map getTime timeline ! (i + 1) \<le> map getTime timeline ! (length timeline - 1)"
      using srt len by (intro sorted_nth_mono) simp_all
    moreover have "length timeline - 1 < length timeline" using len by simp
    ultimately show ?thesis using len hi n by simp
  qed
  have dur: "getTime (Some n) - getTime (Some p) > 0"
    using lo hi by simp
  have ne: "timeline \<noteq> []"
    using len by auto
  show "getAnimationScaleFactor timeline t =
           (if key_curve p = Some ''stepped''
            then \<lparr>scale_x = getX (Some p), scale_y = getY (Some p)\<rparr>
            else \<lparr>scale_x = getX (Some p) + (getX (Some n) - getX (Some p))
                      * ((t - getTime (Some p)) / (getTime (Some n) - getTime (Some p))),
                  scale_y = getY (Some p) + (getY (Some n) - getY (Some p))
                      * ((t - getTime (Some p)) / (getTime (Some n) - getTime (Some p)))\<rparr>)"
    using ne len first last idx p n dur
    by (simp add: getAnimationScaleFactor_def at_index_def Let_def)
next
  show "scale_x (getAnimationScaleFactor
        [Some \<lparr>key_time = Some 0, key_x = Some 1, key_y = None, key_curve = Some ''stepped''\<rparr>,
         Some \<lparr>key_time = Some 1, key_x = Some 4, key_y = None, key_curve = None\<rparr>] (1/2)) = 1"
    by (simp add: getAnimationScaleFactor_def at_index_def Let_def getTime_def getX_def
        scanIdx.simps)
next
  show "scale_x (getAnimationScaleFactor
        [Some \<lparr>key_time = Some 0, key_x = Some 1, key_y = None, key_curve = Some ''stepped''\<rparr>,
         Some \<lparr>key_time = Some 1, key_x = Some 4, key_y = None, key_curve = None\<rparr>] 1) = 4"
    by (simp add: getAnimationScaleFactor_def at_index_def Let_def getTime_def getX_def)
qed

theorem scale_between_keys_witness:
  "sorted (map getTime
      [Some \<lparr>key_time = Some 0, key_x = Some 1, key_y = Some 2, key_curve = None\<rparr>,
       Some \<lparr>key_time = Some 1, key_x = Some 4, key_y = Some 2, key_curve = None\<rparr>])
   \<and> getTime (Some \<lparr>key_time = Some 0, key_x = Some 1, key_y = Some 2, key_curve = None\<rparr>)
        \<le> 1/2
   \<and> 1/2 < getTime (Some \<lparr>key_time = Some 1, key_x = Some 4, key_y = Some 2, key_curve = None\<rparr>)
   \<and> getAnimationScaleFactor
      [Some \<lparr>key_time = Some 0, key_x = Some 1, key_y = Some 2, key_curve = None\<rparr>,
       Some \<lparr>key_time = Some 1, key_x = Some 4, key_y = Some 2, key_curve = None\<rparr>] (1/2)
      = \<lparr>scale_x = 5/2, scale_y = 2\<rparr>"
  using scale_between_keys [THEN conjunct1, rule_format,
      of "[Some \<lparr>key_time = Some 0, key_x = Some 1, key_y = Some 2, key_curve = None\<rparr>,
           Some \<lparr>key_time = Some 1, key_x = Some 4, key_y = Some 2, key_curve = None\<rparr>]"
         0 "\<lparr>key_time = Some 0, key_x = Some 1, key_y = Some 2, key_curve = None\<rparr>"
         "\<lparr>key_time = Some 1, key_x = Some 4, key_y = Some 2, key_curve = None\<rparr>" "1/2"]
  by (simp add: getTime_def getX_def getY_def)

section \<open>JavaScript \<open>Map\<close>\<close>

text \<open>
  A \<open>Map\<close> keeps its entries in insertion order, one per key: \<open>set\<close> on a key that is
  present replaces the value in place, \<open>set\<close> on a new key appends. \<open>get\<close> is
  \<open>map_of\<close>, and \<open>has(k)\<close> holds when \<open>map_of\<close> finds an entry.
\<close>

fun map_set :: "'k \<Rightarrow> 'v \<Rightarrow> ('k \<times> 'v) list \<Rightarrow> ('k \<times> 'v) list" where
  "map_set k v [] = [(k, v)]"
| "map_set k v ((k', v') # m) =
     (if k' = k then (k, v) # m else (k', v') # map_set k v m)"

text \<open>
  Lookup after \<open>set\<close>, after a sequence of \<open>set\<close> calls (the last call for a key decides),
  and the keys, which stay distinct.
\<close>

lemma map_of_map_set: "map_of (map_set k v m) k' = (if k' = k then Some v else map_of m k')"
  by (induction m) auto

lemma map_of_rev_snoc:
  "map_of (rev (calls @ [c])) k = (if fst c = k then Some (snd c) else map_of (rev calls) k)"
  by (cases c) simp

lemma map_of_foldl_map_set:
  "map_of (foldl (\<lambda>entries (name, content). map_set name content entries) m calls) k =
     (case map_of (rev calls) k of Some c \<Rightarrow> Some c | None \<Rightarrow> map_of m k)"
proof (induction calls rule: rev_induct)
  case Nil
  then show ?case by simp
next
  case (snoc c calls)
  obtain name content where c: "c = (name, content)" by (cases c)
  show ?case
    using snoc.IH unfolding c by (simp add: map_of_map_set)
qed

lemma map_of_rev_last_call:
  assumes "i < length calls"
    and "\<forall>j. i < j \<and> j < length calls \<longrightarrow> fst (calls ! j) \<noteq> fst (calls ! i)"
  shows "map_of (rev calls) (fst (calls ! i)) = Some (snd (calls ! i))"
  using assms
proof (induction calls rule: rev_induct)
  case Nil
  then show ?case by simp
next
  case (snoc c calls)
  show ?case
  proof (cases "i = length calls")
    case True
    then show ?thesis by (simp add: map_of_rev_snoc)
  next
    case False
    then have i: "i < length calls" using snoc.prems(1) by simp
    have "i < length calls \<and> length calls < length (calls @ [c])" using i by simp
    then have "fst ((calls @ [c]) ! length calls) \<noteq> fst ((calls @ [c]) ! i)"
      using snoc.prems(2) by blast
    then have differs: "fst c \<noteq> fst (calls ! i)"
      using i by (simp add: nth_append)
    have later: "\<forall>j. i < j \<and> j < length calls \<longrightarrow> fst (calls ! j) \<noteq> fst (calls ! i)"
    proof (intro allI impI)
      fix j
      assume j: "i < j \<and> j < length calls"
      then have "i < j \<and> j < length (calls @ [c])" by simp
      then have "fst ((calls @ [c]) ! j) \<noteq> fst ((calls @ [c]) ! i)"
        using snoc.prems(2) by blast
      then show "fst (calls ! j) \<noteq> fst (calls ! i)"
        using i j by (simp add: nth_append)
    qed
    have "map_of (rev calls) (fst (calls ! i)) = Some (snd (calls ! i))"
      using snoc.IH [OF i later] .
    then show ?thesis
      using i differs by (simp add: map_of_rev_snoc nth_append)
  qed
qed

lemma keys_map_set: "fst ` set (map_set k v m) = insert k (fst ` set m)"
proof (induction m)
  case Nil
  then show ?case by simp
next
  case (Cons entry m)
  obtain k' v' where entry: "entry = (k', v')" by (cases entry)
  show ?case
  proof (cases "k' = k")
    case True
    then show ?thesis using entry by simp
  next
    case False
    then have "fst ` set (map_set k v (entry # m)) = insert k' (fst ` set (map_set k v m))"
      using entry by simp
    also have "\<dots> = insert k' (insert k (fst ` set m))"
      by (simp only: Cons.IH)
    finally show ?thesis using entry by auto
  qed
qed

lemma distinct_map_set: "distinct (map fst m) \<Longrightarrow> distinct (map fst (map_set k v m))"
proof (induction m)
  case Nil
  then show ?case by simp
next
  case (Cons entry m)
  obtain k' v' where entry: "entry = (k', v')" by (cases entry)
  show ?case
  proof (cases "k' = k")
    case True
    then show ?thesis using Cons.prems entry by simp
  next
    case False
    have "k' \<notin> fst ` set (map_set k v m)"
      using Cons.prems entry False by (simp add: keys_map_set)
    then show ?thesis using Cons entry False by simp
  qed
qed

lemma distinct_foldl_map_set:
  "distinct (map fst m) \<Longrightarrow>
   distinct (map fst (foldl (\<lambda>entries (name, content). map_set name content entries) m calls))"
proof (induction calls arbitrary: m)
  case Nil
  then show ?case by simp
next
  case (Cons c calls)
  obtain name content where c: "c = (name, content)" by (cases c)
  show ?case
    unfolding c using Cons.prems by (simp add: Cons.IH distinct_map_set)
qed

text \<open>In a map with one entry per key, the entries under a key are the one looked up.\<close>

lemma filter_key_distinct:
  "distinct (map fst m) \<Longrightarrow> map_of m k = Some v \<Longrightarrow> filter (\<lambda>entry. fst entry = k) m = [(k, v)]"
proof (induction m)
  case Nil
  then show ?case by simp
next
  case (Cons entry m)
  obtain k' v' where entry: "entry = (k', v')" by (cases entry)
  show ?case
  proof (cases "k' = k")
    case True
    then have "k \<notin> fst ` set m" using Cons.prems(1) entry by simp
    then have "filter (\<lambda>entry. fst entry = k) m = []"
      by (auto simp: filter_empty_conv)
    then show ?thesis using Cons.prems(2) entry True by simp
  next
    case False
    then show ?thesis using Cons entry by simp
  qed
qed

lemma map_of_rev_last:
  "map_of (rev calls) k =
     (if filter (\<lambda>c. fst c = k) calls = [] then None
      else Some (snd (last (filter (\<lambda>c. fst c = k) calls))))"
proof (induction calls rule: rev_induct)
  case Nil
  then show ?case by simp
next
  case (snoc c calls)
  show ?case
    using snoc.IH by (simp add: map_of_rev_snoc)
qed

lemma fst_last_filter:
  "filter (\<lambda>c. fst c = k) calls \<noteq> [] \<Longrightarrow> fst (last (filter (\<lambda>c. fst c = k) calls)) = k"
  using last_in_set [of "filter (\<lambda>c. fst c = k) calls"] by auto

section \<open>Report aggregation (src/utils/spineParser.ts, analyzeSpineData)\<close>

text \<open>
  Only the fields read by the aggregation are kept. Record fields carry a prefix because
  the source reuses the same field names in several interfaces.
\<close>

record FoundImageResult =
  img_path :: string
  img_lookupKey :: string
  img_originalWidth :: int
  img_originalHeight :: int
  img_physicalWidth :: "int option"
  img_physicalHeight :: "int option"
  img_maxRenderWidth :: int
  img_maxRenderHeight :: int
  img_maxScaleX :: rat
  img_maxScaleY :: rat
  img_maxFrameIndex :: int
  img_isOverridden :: bool
  img_skinName :: "string option"
  img_overridePercentage :: "rat option"
  img_isLocalScaleOverridden :: bool

record GlobalAssetStat =
  stat_path :: string
  stat_lookupKey :: string
  stat_originalWidth :: int
  stat_originalHeight :: int
  stat_physicalWidth :: "int option"
  stat_physicalHeight :: "int option"
  stat_maxRenderWidth :: int
  stat_maxRenderHeight :: int
  stat_maxScaleX :: rat
  stat_maxScaleY :: rat
  stat_sourceAnimation :: string
  stat_sourceSkeleton :: string
  stat_frameIndex :: int
  stat_isOverridden :: bool
  stat_skinName :: "string option"
  stat_overridePercentage :: "rat option"

record AnalysisResult =
  animationName :: string
  skeletonName :: string
  foundImages :: "FoundImageResult list"
  isSetupPose :: bool

definition SETUP_POSE :: string where
  "SETUP_POSE = ''Setup Pose (Default)''"

text \<open>The object literal stored by both \<open>globalStatsMap.set\<close> calls.\<close>

definition statOf :: "FoundImageResult \<Rightarrow> string \<Rightarrow> string \<Rightarrow> GlobalAssetStat" where
  "statOf img animName skeleton =
     \<lparr>stat_path = img_path img,
      stat_lookupKey = img_lookupKey img,
      stat_originalWidth = img_originalWidth img,
      stat_originalHeight = img_originalHeight img,
      stat_physicalWidth = img_physicalWidth img,
      stat_physicalHeight = img_physicalHeight img,
      stat_maxRenderWidth = img_maxRenderWidth img,
      stat_maxRenderHeight = img_maxRenderHeight img,
      stat_maxScaleX = img_maxScaleX img,
      stat_maxScaleY = img_maxScaleY img,
      stat_sourceAnimation = animName,
      stat_sourceSkeleton = skeleton,
      stat_frameIndex = img_maxFrameIndex img,
      stat_isOverridden = img_isOverridden img,
      stat_skinName = img_skinName img,
      stat_overridePercentage = img_overridePercentage img\<rparr>"

text \<open>A skin name is truthy when it is present and not the empty string.\<close>

definition truthy :: "string option \<Rightarrow> bool" where
  "truthy s = (s \<noteq> None \<and> s \<noteq> Some [])"

definition updateGlobalStats ::
  "string \<Rightarrow> FoundImageResult \<Rightarrow> string \<Rightarrow> (string \<times> GlobalAssetStat) list
     \<Rightarrow> (string \<times> GlobalAssetStat) list" where
  "updateGlobalStats skeleton img animName globalStatsMap =
     (if img_isLocalScaleOverridden img then globalStatsMap
      else
        let area = img_maxRenderWidth img * img_maxRenderHeight img in
        case map_of globalStatsMap (img_lookupKey img) of
          None \<Rightarrow> map_set (img_lookupKey img) (statOf img animName skeleton) globalStatsMap
        | Some current \<Rightarrow>
            if animName = SETUP_POSE \<and> stat_sourceAnimation current \<noteq> SETUP_POSE
            then globalStatsMap
            else
              let currentArea = stat_maxRenderWidth current * stat_maxRenderHeight current in
              if area > currentArea
              then map_set (img_lookupKey img) (statOf img animName skeleton) globalStatsMap
              else if area = currentArea
              then (if truthy (img_skinName img) \<and> img_skinName img \<noteq> Some ''default''
                    then (if \<not> truthy (stat_skinName current)
                             \<or> stat_skinName current = Some ''default''
                          then map_set (img_lookupKey img)
                                 (current\<lparr>stat_skinName := img_skinName img\<rparr>) globalStatsMap
                          else globalStatsMap)
                    else globalStatsMap)
              else globalStatsMap)"

text \<open>
  One pass: \<^verbatim>\<open>rs.forEach(anim => anim.foundImages.forEach(img =>
  updateGlobalStats(img, anim.animationName)))\<close>.
\<close>

definition processPass ::
  "string \<Rightarrow> AnalysisResult list \<Rightarrow> (string \<times> GlobalAssetStat) list
     \<Rightarrow> (string \<times> GlobalAssetStat) list" where
  "processPass skeleton rs m =
     foldl (\<lambda>m anim. foldl (\<lambda>m img. updateGlobalStats skeleton img (animationName anim) m)
                          m (foundImages anim)) m rs"

text \<open>Pass 1 over the animations, pass 2 over the setup pose.\<close>

definition animationPass :: "string \<Rightarrow> AnalysisResult list \<Rightarrow> (string \<times> GlobalAssetStat) list" where
  "animationPass skeleton results =
     processPass skeleton (filter (\<lambda>r. \<not> isSetupPose r) results) []"

definition globalStats :: "string \<Rightarrow> AnalysisResult list \<Rightarrow> (string \<times> GlobalAssetStat) list" where
  "globalStats skeleton results =
     processPass skeleton (filter isSetupPose results) (animationPass skeleton results)"

section \<open>Properties of the aggregation\<close>

lemma updateGlobalStats_entry:
  assumes "map_of (updateGlobalStats skeleton img animName m) k = Some e"
  shows "stat_sourceAnimation e = animName
         \<or> (\<exists>c. map_of m k = Some c \<and> stat_sourceAnimation e = stat_sourceAnimation c)"
proof (cases "map_of m (img_lookupKey img)")
  case None
  with assms show ?thesis
    by (auto simp: updateGlobalStats_def Let_def map_of_map_set statOf_def split: if_splits)
next
  case (Some current)
  with assms show ?thesis
    by (auto simp: updateGlobalStats_def Let_def map_of_map_set statOf_def split: if_splits)
qed

lemma updateGlobalStats_sources:
  assumes "\<forall>e \<in> ran (map_of m). stat_sourceAnimation e \<in> S"
    and "animName \<in> S"
  shows "\<forall>e \<in> ran (map_of (updateGlobalStats skeleton img animName m)). stat_sourceAnimation e \<in> S"
proof
  fix e
  assume "e \<in> ran (map_of (updateGlobalStats skeleton img animName m))"
  then obtain k where k: "map_of (updateGlobalStats skeleton img animName m) k = Some e"
    by (auto simp: ran_def)
  from updateGlobalStats_entry [OF k] show "stat_sourceAnimation e \<in> S"
  proof
    assume "stat_sourceAnimation e = animName"
    then show ?thesis using assms(2) by simp
  next
    assume "\<exists>c. map_of m k = Some c \<and> stat_sourceAnimation e = stat_sourceAnimation c"
    then obtain c where "map_of m k = Some c" "stat_sourceAnimation e = stat_sourceAnimation c"
      by blast
    then show ?thesis using assms(1) by (auto simp: ran_def)
  qed
qed

lemma setup_update_keeps_animation_entry:
  assumes "map_of m k = Some e"
    and "stat_sourceAnimation e \<noteq> SETUP_POSE"
  shows "map_of (updateGlobalStats skeleton img SETUP_POSE m) k = Some e"
  using assms
  by (auto simp: updateGlobalStats_def Let_def map_of_map_set split: option.splits)

lemma setup_images_keep_animation_entry:
  assumes "map_of m k = Some e"
    and "stat_sourceAnimation e \<noteq> SETUP_POSE"
  shows "map_of (foldl (\<lambda>m img. updateGlobalStats skeleton img SETUP_POSE m) m imgs) k = Some e"
  using assms by (induction imgs arbitrary: m) (simp_all add: setup_update_keeps_animation_entry)

lemma setup_pass_keeps_animation_entry:
  assumes "map_of m k = Some e"
    and "stat_sourceAnimation e \<noteq> SETUP_POSE"
    and "\<forall>r \<in> set rs. animationName r = SETUP_POSE"
  shows "map_of (processPass skeleton rs m) k = Some e"
  using assms unfolding processPass_def
  by (induction rs arbitrary: m) (simp_all add: setup_images_keep_animation_entry)

lemma processPass_sources:
  assumes "\<forall>e \<in> ran (map_of m). stat_sourceAnimation e \<in> S"
    and "\<forall>r \<in> set rs. animationName r \<in> S"
  shows "\<forall>e \<in> ran (map_of (processPass skeleton rs m)). stat_sourceAnimation e \<in> S"
  using assms unfolding processPass_def
proof (induction rs arbitrary: m)
  case Nil
  then show ?case by simp
next
  case (Cons r rs)
  have inner: "\<forall>e \<in> ran (map_of (foldl (\<lambda>m img. updateGlobalStats skeleton img (animationName r) m)
                   m imgs)). stat_sourceAnimation e \<in> S" for imgs
    using Cons.prems
  proof (induction imgs arbitrary: m)
    case Nil
    then show ?case by simp
  next
    case (Cons i imgs)
    have "\<forall>e \<in> ran (map_of (updateGlobalStats skeleton i (animationName r) m)).
            stat_sourceAnimation e \<in> S"
      using Cons.prems by (intro updateGlobalStats_sources) simp_all
    then show ?case using Cons.prems by (simp add: Cons.IH)
  qed
  have "\<forall>e \<in> ran (map_of (foldl (\<lambda>m anim. foldl (\<lambda>m img.
              updateGlobalStats skeleton img (animationName anim) m) m (foundImages anim))
            (foldl (\<lambda>m img. updateGlobalStats skeleton img (animationName r) m)
               m (foundImages r)) rs)). stat_sourceAnimation e \<in> S"
    using Cons.prems(2) by (intro Cons.IH inner) simp
  then show ?case by simp
qed

text \<open>
  When no animation is named like the setup pose, an entry contributed by an animation
  survives the setup pass unchanged.
\<close>

lemma setup_pose_never_replaces_animation_entry:
  assumes names: "\<forall>r \<in> set results. isSetupPose r \<longleftrightarrow> animationName r = SETUP_POSE"
    and entry: "map_of (animationPass skeleton results) k = Some e"
  shows "map_of (globalStats skeleton results) k = Some e"
proof -
  have "\<forall>e \<in> ran (map_of (animationPass skeleton results)).
          stat_sourceAnimation e \<in> {n. n \<noteq> SETUP_POSE}"
    unfolding animationPass_def using names
    by (intro processPass_sources) auto
  then have "stat_sourceAnimation e \<noteq> SETUP_POSE"
    using entry by (auto simp: ran_def)
  then show ?thesis
    unfolding globalStats_def using entry names
    by (intro setup_pass_keeps_animation_entry) auto
qed


text \<open>An observation of image \<open>a.png\<close> (100 x 100) rendered at \<open>w x h\<close>.\<close>

definition observation :: "int \<Rightarrow> int \<Rightarrow> FoundImageResult" where
  "observation w h =
     \<lparr>img_path = ''a'', img_lookupKey = ''a.png'',
      img_originalWidth = 100, img_originalHeight = 100,
      img_physicalWidth = None, img_physicalHeight = None,
      img_maxRenderWidth = w, img_maxRenderHeight = h,
      img_maxScaleX = of_int w / 100, img_maxScaleY = of_int h / 100,
      img_maxFrameIndex = 0, img_isOverridden = False,
      img_skinName = Some ''default'', img_overridePercentage = None,
      img_isLocalScaleOverridden = False\<rparr>"

lemma setup_pose_never_replaces_animation_entry_example:
  "map_of (globalStats ''hero''
     [\<lparr>animationName = ''Setup Pose (Default)'', skeletonName = ''hero'',
        foundImages = [observation 300 300], isSetupPose = True\<rparr>,
      \<lparr>animationName = ''idle'', skeletonName = ''hero'',
        foundImages = [observation 150 150], isSetupPose = False\<rparr>]) ''a.png''
   = Some (statOf (observation 150 150) ''idle'' ''hero'')"
proof -
  let ?results = "[\<lparr>animationName = ''Setup Pose (Default)'', skeletonName = ''hero'',
        foundImages = [observation 300 300], isSetupPose = True\<rparr>,
      \<lparr>animationName = ''idle'', skeletonName = ''hero'',
        foundImages = [observation 150 150], isSetupPose = False\<rparr>]"
  have "map_of (animationPass ''hero'' ?results) ''a.png''
        = Some (statOf (observation 150 150) ''idle'' ''hero'')"
    by (simp add: animationPass_def processPass_def updateGlobalStats_def observation_def)
  moreover have "\<forall>r \<in> set ?results. isSetupPose r \<longleftrightarrow> animationName r = SETUP_POSE"
    by (simp add: SETUP_POSE_def)
  ultimately show ?thesis
    by (intro setup_pose_never_replaces_animation_entry)
qed

text \<open>
  C1. The setup pose is recognised in \<open>updateGlobalStats\<close> by the name
  \<open>"Setup Pose (Default)"\<close>, while the two passes select results by the flag
  \<open>isSetupPose\<close>. For a skeleton whose animation carries that very name, the animation
  contributes an entry (150 x 150) in pass 1 and the setup-pose observation (300 x 300)
  replaces it in pass 2.
\<close>

theorem setup_pose_replaces_entry_of_animation_named_like_setup:
  "map_of (animationPass ''hero''
     [\<lparr>animationName = ''Setup Pose (Default)'', skeletonName = ''hero'',
        foundImages = [observation 300 300], isSetupPose = True\<rparr>,
      \<lparr>animationName = ''Setup Pose (Default)'', skeletonName = ''hero'',
        foundImages = [observation 150 150], isSetupPose = False\<rparr>]) ''a.png''
   = Some (statOf (observation 150 150) ''Setup Pose (Default)'' ''hero'')
   \<and> map_of (globalStats ''hero''
     [\<lparr>animationName = ''Setup Pose (Default)'', skeletonName = ''hero'',
        foundImages = [observation 300 300], isSetupPose = True\<rparr>,
      \<lparr>animationName = ''Setup Pose (Default)'', skeletonName = ''hero'',
        foundImages = [observation 150 150], isSetupPose = False\<rparr>]) ''a.png''
   = Some (statOf (observation 300 300) ''Setup Pose (Default)'' ''hero'')"
  by (simp add: globalStats_def animationPass_def processPass_def updateGlobalStats_def
      observation_def statOf_def SETUP_POSE_def)

section \<open>Optimization planner (calculateOptimizationTargets)\<close>

text \<open>A blob is the byte content of a file.\<close>

type_synonym Blob = string

record LoadedImage =
  li_width :: int
  li_height :: int
  li_sourceWidth :: "int option"
  li_sourceHeight :: "int option"
  li_file :: Blob
  li_originalPath :: string

record OptimizationTask =
  fileName :: string
  relativePath :: string
  originalWidth :: int
  originalHeight :: int
  targetWidth :: int
  targetHeight :: int
  blob :: Blob
  maxScaleUsed :: rat
  isResize :: bool
  overridePercentage :: "rat option"

text \<open>
  \<open>Array.prototype.sort\<close> with a comparator is stable: an element moves in front of
  another only when the comparator returns a positive number for the pair in their
  original order.
\<close>

fun insertBy :: "('a \<Rightarrow> 'a \<Rightarrow> int) \<Rightarrow> 'a \<Rightarrow> 'a list \<Rightarrow> 'a list" where
  "insertBy cmp a [] = [a]"
| "insertBy cmp a (b # bs) = (if cmp a b \<le> 0 then a # b # bs else b # insertBy cmp a bs)"

definition sortBy :: "('a \<Rightarrow> 'a \<Rightarrow> int) \<Rightarrow> 'a list \<Rightarrow> 'a list" where
  "sortBy cmp as = foldr (insertBy cmp) as []"

text \<open>\<open>s.lastIndexOf(c)\<close>: the index of the last occurrence, \<open>-1\<close> when there is none.\<close>

fun lastIndexFrom :: "string \<Rightarrow> char \<Rightarrow> int \<Rightarrow> int \<Rightarrow> int" where
  "lastIndexFrom [] c i found = found"
| "lastIndexFrom (d # ds) c i found = lastIndexFrom ds c (i + 1) (if d = c then i else found)"

definition lastIndexOf :: "string \<Rightarrow> char \<Rightarrow> int" where
  "lastIndexOf s c = lastIndexFrom s c 0 (-1)"

definition physicalW :: "LoadedImage \<Rightarrow> int" where
  "physicalW original = (case li_sourceWidth original of Some w \<Rightarrow> w | None \<Rightarrow> li_width original)"

definition physicalH :: "LoadedImage \<Rightarrow> int" where
  "physicalH original = (case li_sourceHeight original of Some h \<Rightarrow> h | None \<Rightarrow> li_height original)"

text \<open>
  Double-precision arithmetic. The operations \<open>/\<close>, \<open>+\<close> and \<open>*\<close> of JavaScript return
  the exact result rounded to the nearest double, ties to the even significand (IEEE 754
  binary64): 53 significant bits, exponents from \<open>-1022\<close> (below it the spacing stays
  \<open>2^-1074\<close>) to \<open>1023\<close>; a result of magnitude \<open>2^1024\<close> or more is an infinity.
  \<open>bufferPercentage\<close> and the sizes of a stat are finite doubles, so that no \<open>NaN\<close>
  arises; signed zeros are not told apart.
\<close>

function bitLength :: "int \<Rightarrow> int" where
  "bitLength n = (if n \<le> 0 then 0 else 1 + bitLength (n div 2))"
  by pat_completeness auto
termination
  by (relation "measure nat") auto

declare bitLength.simps [simp del]

definition pow2 :: "int \<Rightarrow> rat" where
  "pow2 e = (if e \<ge> 0 then 2 ^ nat e else 1 / 2 ^ nat (- e))"

text \<open>The exponent \<open>e\<close> of a number other than zero: \<open>2^e \<le> |x| < 2^(e+1)\<close>.\<close>

definition exponentOf :: "rat \<Rightarrow> int" where
  "exponentOf x =
     (let (p, q) = quotient_of \<bar>x\<bar>;
          d = bitLength p - bitLength q
      in if pow2 d \<le> \<bar>x\<bar> then d else d - 1)"

definition roundHalfEven :: "rat \<Rightarrow> int" where
  "roundHalfEven q =
     (let f = \<lfloor>q\<rfloor>; r = q - of_int f
      in if r < 1 / 2 then f
         else if r > 1 / 2 then f + 1
         else if even f then f else f + 1)"

text \<open>Rounding to 53 significant bits, before the check for overflow.\<close>

definition roundDouble :: "rat \<Rightarrow> rat" where
  "roundDouble x =
     (if x = 0 then 0
      else let e = max (exponentOf x) (- 1022);
               ulp = pow2 (e - 52)
           in of_int (roundHalfEven (x / ulp)) * ulp)"

datatype 'a extended = Finite 'a | PosInfinity | NegInfinity

definition toDouble :: "rat \<Rightarrow> rat extended" where
  "toDouble x =
     (let r = roundDouble x
      in if r \<noteq> 0 \<and> exponentOf r \<ge> 1024
         then (if r > 0 then PosInfinity else NegInfinity)
         else Finite r)"

text \<open>
  \<open>1 + (bufferPercentage / 100)\<close>: a quotient by 100 and a sum with 1 do not overflow.
\<close>

definition bufferMultiplierOf :: "rat \<Rightarrow> rat" where
  "bufferMultiplierOf bufferPercentage = roundDouble (1 + roundDouble (bufferPercentage / 100))"

text \<open>\<open>Math.ceil\<close> leaves an infinity as it is.\<close>

definition mathCeil :: "rat extended \<Rightarrow> int extended" where
  "mathCeil x = (case x of Finite r \<Rightarrow> Finite \<lceil>r\<rceil>
                 | PosInfinity \<Rightarrow> PosInfinity | NegInfinity \<Rightarrow> NegInfinity)"

text \<open>
  \<open>Math.ceil(maxRender * bufferMultiplier)\<close>, the product rounded as a double before the
  ceiling is taken.
\<close>

definition bufferedSize :: "int \<Rightarrow> rat \<Rightarrow> int extended" where
  "bufferedSize maxRender bufferMultiplier =
     mathCeil (toDouble (of_int maxRender * bufferMultiplier))"

text \<open>
  \<open>Math.max(1, Math.min(calculated, physical))\<close> for a finite \<open>physical\<close>:
  \<open>Math.min(Infinity, p)\<close> is \<open>p\<close>, \<open>Math.min(-Infinity, p)\<close> is \<open>-Infinity\<close> and
  \<open>Math.max(1, -Infinity)\<close> is \<open>1\<close>.
\<close>

definition clampTarget :: "int extended \<Rightarrow> int \<Rightarrow> int" where
  "clampTarget calculated physical =
     (case calculated of
        Finite c \<Rightarrow> max 1 (min c physical)
      | PosInfinity \<Rightarrow> max 1 physical
      | NegInfinity \<Rightarrow> 1)"

text \<open>The body of the \<open>loadedImages.forEach\<close> callback for an image that has a stat.\<close>

definition planTask :: "GlobalAssetStat \<Rightarrow> LoadedImage \<Rightarrow> rat \<Rightarrow> OptimizationTask" where
  "planTask stat original bufferPercentage =
     (let physW = physicalW original;
          physH = physicalH original;
          bufferMultiplier = bufferMultiplierOf bufferPercentage;
          calculatedW = (if stat_isOverridden stat then Finite (stat_maxRenderWidth stat)
                         else bufferedSize (stat_maxRenderWidth stat) bufferMultiplier);
          calculatedH = (if stat_isOverridden stat then Finite (stat_maxRenderHeight stat)
                         else bufferedSize (stat_maxRenderHeight stat) bufferMultiplier);
          targetW = clampTarget calculatedW physW;
          targetH = clampTarget calculatedH physH;
          sourcePath = li_originalPath original;
          lastSlashIndex = max (lastIndexOf sourcePath CHR ''/'')
                               (lastIndexOf sourcePath (CHR 0x5C));
          lastDotIndex = lastIndexOf sourcePath CHR ''.'';
          basePath = (if lastDotIndex > lastSlashIndex
                      then take (nat lastDotIndex) sourcePath else sourcePath)
      in \<lparr>fileName = basePath @ ''.png'',
          relativePath = li_originalPath original,
          originalWidth = physW,
          originalHeight = physH,
          targetWidth = targetW,
          targetHeight = targetH,
          blob = li_file original,
          maxScaleUsed = max (stat_maxScaleX stat) (stat_maxScaleY stat),
          isResize = (targetW \<noteq> physW \<or> targetH \<noteq> physH),
          overridePercentage = stat_overridePercentage stat\<rparr>)"

definition statsMapOf :: "GlobalAssetStat list \<Rightarrow> (string \<times> GlobalAssetStat) list" where
  "statsMapOf stats = foldl (\<lambda>m s. map_set (stat_lookupKey s) s m) [] stats"

fun collectTasks ::
  "(string \<times> GlobalAssetStat) list \<Rightarrow> rat \<Rightarrow> (string \<times> LoadedImage) list
     \<Rightarrow> OptimizationTask list" where
  "collectTasks statsMap bufferPercentage [] = []"
| "collectTasks statsMap bufferPercentage ((key, original) # rest) =
     (case map_of statsMap key of
        None \<Rightarrow> collectTasks statsMap bufferPercentage rest
      | Some stat \<Rightarrow> planTask stat original bufferPercentage
                      # collectTasks statsMap bufferPercentage rest)"

text \<open>
  The comparator of the final sort. \<open>localeCompare\<close> with the options
  \<open>{numeric: true, sensitivity: 'base'}\<close> is the host's collation and is a parameter.
\<close>

definition taskOrder ::
  "(string \<Rightarrow> string \<Rightarrow> int) \<Rightarrow> OptimizationTask \<Rightarrow> OptimizationTask \<Rightarrow> int" where
  "taskOrder localeCompare a b =
     (if isResize a \<noteq> isResize b then (if isResize a then -1 else 1)
      else localeCompare (fileName a) (fileName b))"

definition calculateOptimizationTargets ::
  "(string \<Rightarrow> string \<Rightarrow> int) \<Rightarrow> GlobalAssetStat list \<Rightarrow> (string \<times> LoadedImage) list \<Rightarrow> rat
     \<Rightarrow> OptimizationTask list" where
  "calculateOptimizationTargets localeCompare stats loadedImages bufferPercentage =
     sortBy (taskOrder localeCompare)
       (collectTasks (statsMapOf stats) bufferPercentage loadedImages)"

text \<open>A code-unit comparison, used where an example needs a concrete collation.\<close>

fun ordinalCompare :: "string \<Rightarrow> string \<Rightarrow> int" where
  "ordinalCompare [] [] = 0"
| "ordinalCompare [] (d # ds) = -1"
| "ordinalCompare (c # cs) [] = 1"
| "ordinalCompare (c # cs) (d # ds) =
     (if (of_char c :: nat) < of_char d then -1
      else if (of_char d :: nat) < of_char c then 1
      else ordinalCompare cs ds)"

section \<open>Properties of the planner\<close>

lemma set_insertBy: "set (insertBy cmp a bs) = insert a (set bs)"
  by (induction bs) auto

lemma set_sortBy: "set (sortBy cmp as) = set as"
  unfolding sortBy_def by (induction as) (simp_all add: set_insertBy)

lemma length_insertBy: "length (insertBy cmp a bs) = Suc (length bs)"
  by (induction bs) auto

lemma length_sortBy: "length (sortBy cmp as) = length as"
  unfolding sortBy_def by (induction as) (simp_all add: length_insertBy)

lemma set_collectTasks:
  "set (collectTasks statsMap b loadedImages) =
     {planTask stat original b | key original stat.
        (key, original) \<in> set loadedImages \<and> map_of statsMap key = Some stat}"
proof (induction loadedImages)
  case Nil
  then show ?case by simp
next
  case (Cons entry rest)
  obtain key original where entry: "entry = (key, original)" by (cases entry)
  show ?case
  proof (cases "map_of statsMap key")
    case None
    then show ?thesis using Cons.IH entry by auto
  next
    case (Some stat)
    then show ?thesis using Cons.IH entry by auto
  qed
qed

text \<open>
  The planner's rule as the specification words it: the buffer is applied to every stat.
  The arithmetic is the code's, in doubles.
\<close>

definition statedPlan :: "OptimizationTask \<Rightarrow> GlobalAssetStat \<Rightarrow> LoadedImage \<Rightarrow> rat \<Rightarrow> bool" where
  "statedPlan t stat original b \<longleftrightarrow>
     targetWidth t =
       clampTarget (mathCeil (toDouble (of_int (stat_maxRenderWidth stat)
                      * roundDouble (1 + roundDouble (b / 100)))))
         (physicalW original)
     \<and> targetHeight t =
       clampTarget (mathCeil (toDouble (of_int (stat_maxRenderHeight stat)
                      * roundDouble (1 + roundDouble (b / 100)))))
         (physicalH original)
     \<and> (isResize t \<longleftrightarrow>
          targetWidth t \<noteq> physicalW original \<or> targetHeight t \<noteq> physicalH original)"

text \<open>
  The rule with the exception for a stat that carries a user override: its maximum render
  size is taken as it is, without the buffer.
\<close>

definition overrideAwarePlan ::
  "OptimizationTask \<Rightarrow> GlobalAssetStat \<Rightarrow> LoadedImage \<Rightarrow> rat \<Rightarrow> bool" where
  "overrideAwarePlan t stat original b \<longleftrightarrow>
     targetWidth t =
       clampTarget
         (if stat_isOverridden stat then Finite (stat_maxRenderWidth stat)
          else mathCeil (toDouble (of_int (stat_maxRenderWidth stat)
                           * roundDouble (1 + roundDouble (b / 100)))))
         (physicalW original)
     \<and> targetHeight t =
       clampTarget
         (if stat_isOverridden stat then Finite (stat_maxRenderHeight stat)
          else mathCeil (toDouble (of_int (stat_maxRenderHeight stat)
                           * roundDouble (1 + roundDouble (b / 100)))))
         (physicalH original)
     \<and> (isResize t \<longleftrightarrow>
          targetWidth t \<noteq> physicalW original \<or> targetHeight t \<noteq> physicalH original)"

text \<open>
  The rounding at work: \<open>10 / 100\<close> is the double next to one tenth, \<open>1 +\<close> it the double
  next to \<open>1.1\<close>, which lies above \<open>1.1\<close>, and fifty times it rounds to \<open>55 + 2^-47\<close>,
  whose ceiling is 56. A buffer of 100 percent doubles exactly.
\<close>

lemma bufferMultiplierOf_10: "bufferMultiplierOf 10 = 2476979795053773 / 2 ^ 51"
  by code_simp

lemma bufferedSize_50_10: "bufferedSize 50 (bufferMultiplierOf 10) = Finite 56"
  by code_simp

lemma bufferedSize_10_100: "bufferedSize 10 (bufferMultiplierOf 100) = Finite 20"
  by code_simp

text \<open>
  The ceiling of the product of doubles can exceed the ceiling of the exact product.
\<close>

lemma bufferedSize_above_exact_ceiling:
  "bufferedSize 50 (bufferMultiplierOf 10) = Finite 56 \<and> \<lceil>(50::rat) * (1 + 10 / 100)\<rceil> = 55"
  using bufferedSize_50_10 by (simp add: ceiling_eq_iff)

text \<open>Example inputs: a 100 x 100 image and a stat for it with maximum render size \<open>n x n\<close>.\<close>

definition exampleImage :: LoadedImage where
  "exampleImage = \<lparr>li_width = 100, li_height = 100, li_sourceWidth = None,
     li_sourceHeight = None, li_file = ''bytes'', li_originalPath = ''img/a.png''\<rparr>"

definition exampleStat :: "int \<Rightarrow> bool \<Rightarrow> GlobalAssetStat" where
  "exampleStat n overridden =
     \<lparr>stat_path = ''a'', stat_lookupKey = ''img/a.png'',
      stat_originalWidth = 100, stat_originalHeight = 100,
      stat_physicalWidth = None, stat_physicalHeight = None,
      stat_maxRenderWidth = n, stat_maxRenderHeight = n,
      stat_maxScaleX = of_int n / 100, stat_maxScaleY = of_int n / 100,
      stat_sourceAnimation = ''idle'', stat_sourceSkeleton = ''hero'',
      stat_frameIndex = 0, stat_isOverridden = overridden,
      stat_skinName = Some ''default'',
      stat_overridePercentage = (if overridden then Some 50 else None)\<rparr>"

lemma planTask_overrideAware: "overrideAwarePlan (planTask stat original b) stat original b"
  by (simp add: overrideAwarePlan_def planTask_def bufferedSize_def bufferMultiplierOf_def
      Let_def)

text \<open>
  C2 (as the code has it). Every task the planner emits belongs to an image of the index
  that has a merged stat, every such image gets a task, and the task's target is the
  buffered maximum render size \<open>ceil(maxRender * (1 + bufferPct/100))\<close>, computed in doubles
  as the code computes it, or the maximum render size itself when the stat carries a user
  override, clamped down to the physical size and up to 1 x 1; \<open>isResize\<close> holds exactly
  when the target differs from the physical size.
\<close>

theorem planner_targets:
  "(\<forall>t \<in> set (calculateOptimizationTargets localeCompare stats loadedImages b).
      \<exists>key original stat.
        (key, original) \<in> set loadedImages \<and> map_of (statsMapOf stats) key = Some stat
        \<and> overrideAwarePlan t stat original b)
   \<and> (\<forall>(key, original) \<in> set loadedImages. \<forall>stat.
        map_of (statsMapOf stats) key = Some stat \<longrightarrow>
        (\<exists>t \<in> set (calculateOptimizationTargets localeCompare stats loadedImages b).
           relativePath t = li_originalPath original \<and> overrideAwarePlan t stat original b))"
proof (intro conjI ballI)
  fix t
  assume "t \<in> set (calculateOptimizationTargets localeCompare stats loadedImages b)"
  then have "t \<in> set (collectTasks (statsMapOf stats) b loadedImages)"
    by (simp add: calculateOptimizationTargets_def set_sortBy)
  then obtain key original stat where
    mem: "(key, original) \<in> set loadedImages" and
    st: "map_of (statsMapOf stats) key = Some stat" and
    t: "t = planTask stat original b"
    unfolding set_collectTasks by blast
  show "\<exists>key original stat.
        (key, original) \<in> set loadedImages \<and> map_of (statsMapOf stats) key = Some stat
        \<and> overrideAwarePlan t stat original b"
    using mem st planTask_overrideAware unfolding t by blast
next
  fix entry
  assume entry: "entry \<in> set loadedImages"
  obtain key original where eq: "entry = (key, original)" by (cases entry)
  have "\<exists>t \<in> set (calculateOptimizationTargets localeCompare stats loadedImages b).
           relativePath t = li_originalPath original \<and> overrideAwarePlan t stat original b"
    if st: "map_of (statsMapOf stats) key = Some stat" for stat
  proof -
    have "planTask stat original b
            \<in> set (calculateOptimizationTargets localeCompare stats loadedImages b)"
      using entry st unfolding eq calculateOptimizationTargets_def set_sortBy set_collectTasks
      by blast
    moreover have "relativePath (planTask stat original b) = li_originalPath original"
      by (simp add: planTask_def Let_def)
    ultimately show ?thesis
      using planTask_overrideAware by blast
  qed
  then show "case entry of (key, original) \<Rightarrow> \<forall>stat.
        map_of (statsMapOf stats) key = Some stat \<longrightarrow>
        (\<exists>t \<in> set (calculateOptimizationTargets localeCompare stats loadedImages b).
           relativePath t = li_originalPath original \<and> overrideAwarePlan t stat original b)"
    unfolding eq by simp
qed

theorem planner_targets_witness:
  "(''img/a.png'', exampleImage) \<in> set [(''img/a.png'', exampleImage)]
   \<and> map_of (statsMapOf [exampleStat 50 False]) ''img/a.png'' = Some (exampleStat 50 False)
   \<and> (\<exists>t \<in> set (calculateOptimizationTargets ordinalCompare [exampleStat 50 False]
                    [(''img/a.png'', exampleImage)] 10).
         relativePath t = ''img/a.png'' \<and> targetWidth t = 56 \<and> targetHeight t = 56
         \<and> isResize t)"
proof -
  have st: "map_of (statsMapOf [exampleStat 50 False]) ''img/a.png''
              = Some (exampleStat 50 False)"
    by (simp add: statsMapOf_def exampleStat_def)
  have "\<exists>t \<in> set (calculateOptimizationTargets ordinalCompare [exampleStat 50 False]
                    [(''img/a.png'', exampleImage)] 10).
          relativePath t = li_originalPath exampleImage
          \<and> overrideAwarePlan t (exampleStat 50 False) exampleImage 10"
    using planner_targets [of ordinalCompare "[exampleStat 50 False]"
        "[(''img/a.png'', exampleImage)]" 10, THEN conjunct2] st
    by simp
  then obtain t where
    "t \<in> set (calculateOptimizationTargets ordinalCompare [exampleStat 50 False]
              [(''img/a.png'', exampleImage)] 10)"
    "relativePath t = li_originalPath exampleImage"
    "overrideAwarePlan t (exampleStat 50 False) exampleImage 10"
    by blast
  moreover have "mathCeil (toDouble (50 * roundDouble (1 + roundDouble (10 / 100)))) = Finite 56"
    using bufferedSize_50_10 by (simp add: bufferedSize_def bufferMultiplierOf_def)
  ultimately have "\<exists>t \<in> set (calculateOptimizationTargets ordinalCompare [exampleStat 50 False]
                    [(''img/a.png'', exampleImage)] 10).
         relativePath t = ''img/a.png'' \<and> targetWidth t = 56 \<and> targetHeight t = 56
         \<and> isResize t"
    by (intro bexI [of _ t])
       (simp_all add: overrideAwarePlan_def exampleStat_def exampleImage_def
          physicalW_def physicalH_def clampTarget_def)
  then show ?thesis using st by simp
qed

text \<open>
  With a user override on the stat (maximum render size 10 x 10) and a buffer of 100 percent
  the planner emits the target 10 x 10, not the buffered 20 x 20 (the product \<open>10 * 2\<close> is
  exact in doubles).
\<close>

theorem planner_ignores_buffer_for_overridden_stat:
  "length (calculateOptimizationTargets ordinalCompare [exampleStat 10 True]
             [(''img/a.png'', exampleImage)] 100) = 1
   \<and> targetWidth (hd (calculateOptimizationTargets ordinalCompare [exampleStat 10 True]
             [(''img/a.png'', exampleImage)] 100)) = 10
   \<and> \<not> statedPlan (hd (calculateOptimizationTargets ordinalCompare [exampleStat 10 True]
             [(''img/a.png'', exampleImage)] 100)) (exampleStat 10 True) exampleImage 100"
proof -
  have stated: "mathCeil (toDouble (10 * roundDouble (1 + roundDouble (100 / 100)))) = Finite 20"
    using bufferedSize_10_100 by (simp add: bufferedSize_def bufferMultiplierOf_def)
  show ?thesis
    using stated
    by (simp add: calculateOptimizationTargets_def sortBy_def statsMapOf_def exampleStat_def
        exampleImage_def planTask_def statedPlan_def physicalW_def physicalH_def Let_def
        clampTarget_def)
qed

section \<open>Atlas packer (src/utils/atlasPacker.ts)\<close>

record Rect =
  rect_x :: int
  rect_y :: int
  rect_width :: int
  rect_height :: int

record PackedRect =
  packed_x :: int
  packed_y :: int
  packed_w :: int
  packed_h :: int
  packed_task :: OptimizationTask

text \<open>
  \<open>efficiency\<close> is \<open>(usedArea / totalArea) * 100\<close>; for a page of area zero JavaScript yields
  \<open>NaN\<close> or \<open>Infinity\<close>, which is \<open>None\<close> here.
\<close>

record AtlasPage =
  page_id :: nat
  page_width :: int
  page_height :: int
  items :: "PackedRect list"
  efficiency :: "rat option"

record MaxRectsPacker =
  packer_width :: int
  packer_height :: int
  packer_padding :: int
  freeRects :: "Rect list"
  packedRects :: "PackedRect list"

text \<open>\<open>Number.MAX_VALUE\<close>, the largest finite double, is an integer.\<close>

definition MAX_VALUE :: int where
  "MAX_VALUE = (2 ^ 53 - 1) * 2 ^ 971"

definition newPacker :: "int \<Rightarrow> int \<Rightarrow> int \<Rightarrow> MaxRectsPacker" where
  "newPacker width height padding =
     \<lparr>packer_width = width, packer_height = height, packer_padding = padding,
      freeRects = [\<lparr>rect_x = 0, rect_y = 0, rect_width = width, rect_height = height\<rparr>],
      packedRects = []\<rparr>"

text \<open>One iteration of the loop of \<open>findBestNode\<close> over the free rectangles.\<close>

definition considerFree :: "int \<Rightarrow> int \<Rightarrow> int \<times> Rect \<Rightarrow> Rect \<Rightarrow> int \<times> Rect" where
  "considerFree w h best free =
     (if rect_width free \<ge> w \<and> rect_height free \<ge> h then
        let leftoverHoriz = \<bar>rect_width free - w\<bar>;
            leftoverVert = \<bar>rect_height free - h\<bar>;
            shortSideFit = min leftoverHoriz leftoverVert
        in if shortSideFit < fst best
           then (shortSideFit,
                 \<lparr>rect_x = rect_x free, rect_y = rect_y free, rect_width = w, rect_height = h\<rparr>)
           else best
      else best)"

definition findBestNode :: "Rect list \<Rightarrow> int \<Rightarrow> int \<Rightarrow> int \<times> Rect" where
  "findBestNode frees w h =
     foldl (considerFree w h)
       (MAX_VALUE, \<lparr>rect_x = 0, rect_y = 0, rect_width = 0, rect_height = 0\<rparr>) frees"

definition isContained :: "Rect \<Rightarrow> Rect \<Rightarrow> bool" where
  "isContained a b \<longleftrightarrow>
     rect_x a \<ge> rect_x b \<and> rect_y a \<ge> rect_y b
     \<and> rect_x a + rect_width a \<le> rect_x b + rect_width b
     \<and> rect_y a + rect_height a \<le> rect_y b + rect_height b"

text \<open>
  \<open>splitFreeNode\<close> returns whether the free node is hit by the used node, and pushes up to
  four residual rectangles onto \<open>freeRects\<close>; the model returns the rectangles pushed, in
  the order of the pushes.
\<close>

definition splitFreeNode :: "Rect \<Rightarrow> Rect \<Rightarrow> bool \<times> Rect list" where
  "splitFreeNode freeNode usedNode =
     (if rect_x usedNode \<ge> rect_x freeNode + rect_width freeNode
         \<or> rect_x usedNode + rect_width usedNode \<le> rect_x freeNode
         \<or> rect_y usedNode \<ge> rect_y freeNode + rect_height freeNode
         \<or> rect_y usedNode + rect_height usedNode \<le> rect_y freeNode
      then (False, [])
      else
        (True,
         (if rect_x usedNode < rect_x freeNode + rect_width freeNode
             \<and> rect_x usedNode + rect_width usedNode > rect_x freeNode
          then
            (if rect_y usedNode > rect_y freeNode
                \<and> rect_y usedNode < rect_y freeNode + rect_height freeNode
             then [\<lparr>rect_x = rect_x freeNode, rect_y = rect_y freeNode,
                    rect_width = rect_width freeNode,
                    rect_height = rect_y usedNode - rect_y freeNode\<rparr>]
             else [])
            @
            (if rect_y usedNode + rect_height usedNode < rect_y freeNode + rect_height freeNode
             then [\<lparr>rect_x = rect_x freeNode,
                    rect_y = rect_y usedNode + rect_height usedNode,
                    rect_width = rect_width freeNode,
                    rect_height = rect_y freeNode + rect_height freeNode
                                  - (rect_y usedNode + rect_height usedNode)\<rparr>]
             else [])
          else [])
         @
         (if rect_y usedNode < rect_y freeNode + rect_height freeNode
             \<and> rect_y usedNode + rect_height usedNode > rect_y freeNode
          then
            (if rect_x usedNode > rect_x freeNode
                \<and> rect_x usedNode < rect_x freeNode + rect_width freeNode
             then [\<lparr>rect_x = rect_x freeNode, rect_y = rect_y freeNode,
                    rect_width = rect_x usedNode - rect_x freeNode,
                    rect_height = rect_height freeNode\<rparr>]
             else [])
            @
            (if rect_x usedNode + rect_width usedNode < rect_x freeNode + rect_width freeNode
             then [\<lparr>rect_x = rect_x usedNode + rect_width usedNode,
                    rect_y = rect_y freeNode,
                    rect_width = rect_x freeNode + rect_width freeNode
                                 - (rect_x usedNode + rect_width usedNode),
                    rect_height = rect_height freeNode\<rparr>]
             else [])
          else [])))"

text \<open>\<open>array.splice(i, 1)\<close> removes the element at index \<open>i\<close>.\<close>

definition spliceOut :: "nat \<Rightarrow> 'a list \<Rightarrow> 'a list" where
  "spliceOut i xs = take i xs @ drop (Suc i) xs"

text \<open>
  The loop of \<open>placeRect\<close> walks \<open>freeRects\<close> by index while \<open>splitFreeNode\<close> pushes
  at the end of the array, so that the loop reaches the pushed rectangles too. A node that
  is hit is spliced out and the index stays (\<open>i--\<close> followed by \<open>i++\<close>).
\<close>

definition hits :: "Rect \<Rightarrow> Rect \<Rightarrow> bool" where
  "hits usedNode freeNode = fst (splitFreeNode freeNode usedNode)"

function placeRectLoop :: "Rect \<Rightarrow> Rect list \<Rightarrow> nat \<Rightarrow> Rect list" where
  "placeRectLoop rect frees i =
     (if i < length frees then
        (case splitFreeNode (frees ! i) rect of
           (True, pushed) \<Rightarrow> placeRectLoop rect (spliceOut i (frees @ pushed)) i
         | (False, pushed) \<Rightarrow> placeRectLoop rect (frees @ pushed) (i + 1))
      else frees)"
  by pat_completeness auto
termination
proof (relation "measures [\<lambda>(rect, frees, i). length (filter (hits rect) (drop i frees)),
                           \<lambda>(rect, frees, i). length frees - i]", goal_cases)
  case 1
  then show ?case by simp
next
  case (2 rect frees i hit pushed)
  then have sp: "splitFreeNode (frees ! i) rect = (True, pushed)" and i: "i < length frees"
    by simp_all
  have "filter (hits rect) pushed = []"
    using sp by (auto simp: splitFreeNode_def hits_def filter_empty_conv split: if_splits)
  moreover have "hits rect (frees ! i)"
    using sp by (simp add: hits_def)
  moreover have "drop i (spliceOut i (frees @ pushed)) = drop (Suc i) frees @ pushed"
    using i by (simp add: spliceOut_def)
  moreover have "drop i frees = frees ! i # drop (Suc i) frees"
    using i by (simp add: Cons_nth_drop_Suc)
  ultimately show ?case by simp
next
  case (3 rect frees i hit pushed)
  then have sp: "splitFreeNode (frees ! i) rect = (False, pushed)" and i: "i < length frees"
    by simp_all
  have "pushed = []"
    using sp by (auto simp: splitFreeNode_def split: if_splits)
  moreover have "\<not> hits rect (frees ! i)"
    using sp by (simp add: hits_def)
  moreover have "drop i frees = frees ! i # drop (Suc i) frees"
    using i by (simp add: Cons_nth_drop_Suc)
  ultimately show ?case using i by simp
qed

declare placeRectLoop.simps [simp del]

text \<open>
  \<open>pruneFreeList\<close>: the two nested loops over the indices \<open>i < j\<close>. When
  \<open>freeRects[i]\<close> lies in \<open>freeRects[j]\<close> it is spliced out and the inner loop is left, so
  that the outer loop goes on at the same index with \<open>j = i + 1\<close>; when \<open>freeRects[j]\<close>
  lies in \<open>freeRects[i]\<close> it is spliced out and the inner loop goes on at the same \<open>j\<close>.
\<close>

function pruneLoop :: "Rect list \<Rightarrow> nat \<Rightarrow> nat \<Rightarrow> Rect list" where
  "pruneLoop frees i j =
     (if i < length frees then
        (if j < length frees then
           (if isContained (frees ! i) (frees ! j) then pruneLoop (spliceOut i frees) i (i + 1)
            else if isContained (frees ! j) (frees ! i) then pruneLoop (spliceOut j frees) i j
            else pruneLoop frees i (j + 1))
         else pruneLoop frees (i + 1) (i + 2))
      else frees)"
  by pat_completeness auto
termination
  by (relation "measures [\<lambda>(frees, i, j). length frees,
                          \<lambda>(frees, i, j). length frees - i,
                          \<lambda>(frees, i, j). length frees - j]")
     (auto simp: spliceOut_def)

declare pruneLoop.simps [simp del]

definition pruneFreeList :: "Rect list \<Rightarrow> Rect list" where
  "pruneFreeList frees = pruneLoop frees 0 1"

definition placeRect :: "MaxRectsPacker \<Rightarrow> Rect \<Rightarrow> MaxRectsPacker" where
  "placeRect packer rect =
     packer\<lparr>freeRects := pruneFreeList (placeRectLoop rect (freeRects packer) 0)\<rparr>"

text \<open>\<open>insert\<close>: the packed rectangle, if the task fits, and the packer afterwards.\<close>

definition packer_insert ::
  "MaxRectsPacker \<Rightarrow> OptimizationTask \<Rightarrow> PackedRect option \<times> MaxRectsPacker" where
  "packer_insert packer task =
     (let requiredW = targetWidth task + packer_padding packer;
          requiredH = targetHeight task + packer_padding packer;
          bestNode = findBestNode (freeRects packer) requiredW requiredH
      in if fst bestNode = MAX_VALUE then (None, packer)
         else
           (Some \<lparr>packed_x = rect_x (snd bestNode), packed_y = rect_y (snd bestNode),
                  packed_w = targetWidth task, packed_h = targetHeight task,
                  packed_task = task\<rparr>,
            placeRect packer (snd bestNode)))"

text \<open>
  The \<open>for\<close> loop of \<open>packAtlases\<close> over the remaining tasks: the state is the packer,
  \<open>pageItems\<close> and \<open>didntFit\<close>.
\<close>

fun fillPage ::
  "int \<Rightarrow> OptimizationTask list \<Rightarrow> MaxRectsPacker \<times> PackedRect list \<times> OptimizationTask list
     \<Rightarrow> MaxRectsPacker \<times> PackedRect list \<times> OptimizationTask list" where
  "fillPage maxSize [] state = state"
| "fillPage maxSize (task # remaining) (packer, pageItems, didntFit) =
     (if targetWidth task > maxSize \<or> targetHeight task > maxSize
      then fillPage maxSize remaining (packer, pageItems, didntFit)
      else
        (case packer_insert packer task of
           (Some rect, packer') \<Rightarrow>
             fillPage maxSize remaining (packer', pageItems @ [rect], didntFit)
         | (None, packer') \<Rightarrow>
             fillPage maxSize remaining (packer', pageItems, didntFit @ [task])))"

definition pageOf :: "nat \<Rightarrow> int \<Rightarrow> PackedRect list \<Rightarrow> AtlasPage" where
  "pageOf currentPageIndex maxSize pageItems =
     (let usedArea = foldl (\<lambda>usedArea p. usedArea + packed_w p * packed_h p) 0 pageItems;
          totalArea = maxSize * maxSize
      in \<lparr>page_id = currentPageIndex, page_width = maxSize, page_height = maxSize,
          items = pageItems,
          efficiency = (if totalArea = 0 then None
                        else Some (of_int usedArea / of_int totalArea * 100))\<rparr>)"

lemma fillPage_lengths:
  "fillPage maxSize remaining (packer, pageItems, didntFit) = (packer', pageItems', didntFit')
   \<Longrightarrow> length pageItems' + length didntFit'
         \<le> length pageItems + length didntFit + length remaining
       \<and> length pageItems \<le> length pageItems' \<and> length didntFit \<le> length didntFit'"
proof (induction remaining arbitrary: packer pageItems didntFit)
  case Nil
  then show ?case by simp
next
  case (Cons task remaining)
  show ?case
  proof (cases "targetWidth task > maxSize \<or> targetHeight task > maxSize")
    case True
    with Cons.prems have "fillPage maxSize remaining (packer, pageItems, didntFit)
        = (packer', pageItems', didntFit')" by simp
    from Cons.IH [OF this] show ?thesis by simp
  next
    case False
    obtain placed packer1 where ins: "packer_insert packer task = (placed, packer1)"
      by (cases "packer_insert packer task")
    show ?thesis
    proof (cases placed)
      case None
      with Cons.prems False ins have "fillPage maxSize remaining
          (packer1, pageItems, didntFit @ [task]) = (packer', pageItems', didntFit')" by simp
      from Cons.IH [OF this] show ?thesis by simp
    next
      case (Some rect)
      with Cons.prems False ins have "fillPage maxSize remaining
          (packer1, pageItems @ [rect], didntFit) = (packer', pageItems', didntFit')" by simp
      from Cons.IH [OF this] show ?thesis by simp
    qed
  qed
qed

text \<open>The \<open>while\<close> loop of \<open>packAtlases\<close>.\<close>

function packLoop ::
  "int \<Rightarrow> int \<Rightarrow> nat \<Rightarrow> OptimizationTask list \<Rightarrow> AtlasPage list \<Rightarrow> AtlasPage list" where
  "packLoop maxSize padding currentPageIndex remaining pages =
     (if length remaining > 0 then
        (case fillPage maxSize remaining (newPacker maxSize maxSize padding, [], []) of
           (packer, pageItems, didntFit) \<Rightarrow>
             if length pageItems = 0 \<and> length didntFit = length remaining
             then pages @ [pageOf currentPageIndex maxSize pageItems]
             else packLoop maxSize padding (currentPageIndex + 1) didntFit
                    (pages @ [pageOf currentPageIndex maxSize pageItems]))
      else pages)"
  by pat_completeness auto
termination
proof (relation "measure (\<lambda>(maxSize, padding, currentPageIndex, remaining, pages).
                            length remaining)", goal_cases)
  case 1
  then show ?case by simp
next
  case (2 maxSize padding currentPageIndex remaining pages packer rest pageItems didntFit)
  then have "fillPage maxSize remaining (newPacker maxSize maxSize padding, [], [])
               = (packer, pageItems, didntFit)" by simp
  from fillPage_lengths [OF this]
  have le: "length pageItems + length didntFit \<le> length remaining" by simp
  have "length didntFit < length remaining"
  proof (cases "pageItems = []")
    case True
    with 2 le show ?thesis by auto
  next
    case False
    then have "0 < length pageItems" by simp
    with le show ?thesis by arith
  qed
  then show ?case by simp
qed

declare packLoop.simps [simp del]

definition packAtlases :: "OptimizationTask list \<Rightarrow> int \<Rightarrow> int \<Rightarrow> AtlasPage list" where
  "packAtlases tasks maxSize padding =
     (let sortedTasks = sortBy (\<lambda>a b. targetHeight b - targetHeight a) tasks
      in packLoop maxSize padding 0 sortedTasks [])"

definition exampleTask :: "string \<Rightarrow> int \<Rightarrow> int \<Rightarrow> OptimizationTask" where
  "exampleTask name w h =
     \<lparr>fileName = name, relativePath = name, originalWidth = w, originalHeight = h,
      targetWidth = w, targetHeight = h, blob = ''bytes'', maxScaleUsed = 1,
      isResize = False, overridePercentage = None\<rparr>"

section \<open>Properties of the packer\<close>

text \<open>
  Two rectangles overlap when their open interiors share a point: both are non-degenerate
  and each begins before the other ends, on both axes.
\<close>

definition interiorsMeet :: "Rect \<Rightarrow> Rect \<Rightarrow> bool" where
  "interiorsMeet a b \<longleftrightarrow>
     0 < rect_width a \<and> 0 < rect_width b
     \<and> rect_x a < rect_x b + rect_width b \<and> rect_x b < rect_x a + rect_width a
     \<and> 0 < rect_height a \<and> 0 < rect_height b
     \<and> rect_y a < rect_y b + rect_height b \<and> rect_y b < rect_y a + rect_height a"

text \<open>A packed rectangle grown by the padding on its right and bottom edges.\<close>

definition inflate :: "int \<Rightarrow> PackedRect \<Rightarrow> Rect" where
  "inflate padding p =
     \<lparr>rect_x = packed_x p, rect_y = packed_y p,
      rect_width = packed_w p + padding, rect_height = packed_h p + padding\<rparr>"

definition pairwiseApart :: "int \<Rightarrow> PackedRect list \<Rightarrow> bool" where
  "pairwiseApart padding ps \<longleftrightarrow>
     (\<forall>i j. i < j \<and> j < length ps \<longrightarrow>
        \<not> interiorsMeet (inflate padding (ps ! i)) (inflate padding (ps ! j)))"

lemma interiorsMeet_common_point:
  "interiorsMeet a b \<longleftrightarrow>
     (\<exists>(px::rat) (py::rat).
        of_int (rect_x a) < px \<and> px < of_int (rect_x a + rect_width a)
        \<and> of_int (rect_x b) < px \<and> px < of_int (rect_x b + rect_width b)
        \<and> of_int (rect_y a) < py \<and> py < of_int (rect_y a + rect_height a)
        \<and> of_int (rect_y b) < py \<and> py < of_int (rect_y b + rect_height b))"
proof
  assume m: "interiorsMeet a b"
  define lx where "lx = max (rect_x a) (rect_x b)"
  define hx where "hx = min (rect_x a + rect_width a) (rect_x b + rect_width b)"
  define ly where "ly = max (rect_y a) (rect_y b)"
  define hy where "hy = min (rect_y a + rect_height a) (rect_y b + rect_height b)"
  have x: "lx < hx" and y: "ly < hy"
    using m by (auto simp: interiorsMeet_def lx_def hx_def ly_def hy_def)
  define px :: rat where "px = (of_int lx + of_int hx) / 2"
  define py :: rat where "py = (of_int ly + of_int hy) / 2"
  have px: "of_int lx < px" "px < of_int hx"
    using x by (simp_all add: px_def field_simps)
  have py: "of_int ly < py" "py < of_int hy"
    using y by (simp_all add: py_def field_simps)
  have bx: "rect_x a \<le> lx" "rect_x b \<le> lx" "hx \<le> rect_x a + rect_width a"
    "hx \<le> rect_x b + rect_width b"
    by (simp_all add: lx_def hx_def)
  have by': "rect_y a \<le> ly" "rect_y b \<le> ly" "hy \<le> rect_y a + rect_height a"
    "hy \<le> rect_y b + rect_height b"
    by (simp_all add: ly_def hy_def)
  have lo: "\<And>k l :: int. k \<le> l \<Longrightarrow> (of_int k :: rat) \<le> of_int l" by simp
  have "of_int (rect_x a) < px" "px < of_int (rect_x a + rect_width a)"
       "of_int (rect_x b) < px" "px < of_int (rect_x b + rect_width b)"
    using px lo [OF bx(1)] lo [OF bx(2)] lo [OF bx(3)] lo [OF bx(4)] by linarith+
  moreover have "of_int (rect_y a) < py" "py < of_int (rect_y a + rect_height a)"
       "of_int (rect_y b) < py" "py < of_int (rect_y b + rect_height b)"
    using py lo [OF by'(1)] lo [OF by'(2)] lo [OF by'(3)] lo [OF by'(4)] by linarith+
  ultimately show "\<exists>(px::rat) (py::rat).
        of_int (rect_x a) < px \<and> px < of_int (rect_x a + rect_width a)
        \<and> of_int (rect_x b) < px \<and> px < of_int (rect_x b + rect_width b)
        \<and> of_int (rect_y a) < py \<and> py < of_int (rect_y a + rect_height a)
        \<and> of_int (rect_y b) < py \<and> py < of_int (rect_y b + rect_height b)"
    by blast
next
  assume "\<exists>(px::rat) (py::rat).
        of_int (rect_x a) < px \<and> px < of_int (rect_x a + rect_width a)
        \<and> of_int (rect_x b) < px \<and> px < of_int (rect_x b + rect_width b)
        \<and> of_int (rect_y a) < py \<and> py < of_int (rect_y a + rect_height a)
        \<and> of_int (rect_y b) < py \<and> py < of_int (rect_y b + rect_height b)"
  then obtain px py :: rat where
    x: "of_int (rect_x a) < px" "px < of_int (rect_x a + rect_width a)"
       "of_int (rect_x b) < px" "px < of_int (rect_x b + rect_width b)" and
    y: "of_int (rect_y a) < py" "py < of_int (rect_y a + rect_height a)"
       "of_int (rect_y b) < py" "py < of_int (rect_y b + rect_height b)"
    by blast
  have up: "\<And>k l :: int. (of_int k :: rat) < of_int l \<Longrightarrow> k < l" by simp
  have "rect_x a < rect_x a + rect_width a" "rect_x b < rect_x b + rect_width b"
       "rect_x a < rect_x b + rect_width b" "rect_x b < rect_x a + rect_width a"
    using x by (intro up; linarith)+
  moreover have "rect_y a < rect_y a + rect_height a" "rect_y b < rect_y b + rect_height b"
       "rect_y a < rect_y b + rect_height b" "rect_y b < rect_y a + rect_height a"
    using y by (intro up; linarith)+
  ultimately show "interiorsMeet a b"
    by (simp add: interiorsMeet_def)
qed

lemma interiorsMeet_sym: "interiorsMeet a b \<longleftrightarrow> interiorsMeet b a"
  by (auto simp: interiorsMeet_def)

lemma isContained_trans: "isContained a b \<Longrightarrow> isContained b c \<Longrightarrow> isContained a c"
  by (auto simp: isContained_def)

lemma isContained_refl: "isContained a a"
  by (simp add: isContained_def)

lemma interiorsMeet_mono: "isContained a b \<Longrightarrow> interiorsMeet a c \<Longrightarrow> interiorsMeet b c"
  by (auto simp: isContained_def interiorsMeet_def)

lemma splitFreeNode_miss:
  assumes "splitFreeNode freeNode usedNode = (False, pushed)"
  shows "pushed = []" and "\<not> interiorsMeet freeNode usedNode"
  using assms by (auto simp: splitFreeNode_def interiorsMeet_def split: if_splits)

lemma splitFreeNode_pushed:
  assumes "splitFreeNode freeNode usedNode = (hit, pushed)"
    and "p \<in> set pushed"
  shows "isContained p freeNode" and "\<not> interiorsMeet p usedNode"
  using assms
  by (auto simp: splitFreeNode_def interiorsMeet_def isContained_def split: if_splits)


lemma set_spliceOut: "set (spliceOut i xs) \<subseteq> set xs"
  unfolding spliceOut_def using set_take_subset [of i xs] set_drop_subset [of "Suc i" xs]
  by auto

lemma nth_spliceOut_before: "k < i \<Longrightarrow> i < length xs \<Longrightarrow> spliceOut i xs ! k = xs ! k"
  by (simp add: spliceOut_def nth_append)

text \<open>
  The loop of \<open>placeRect\<close> leaves only rectangles that lie in a rectangle of the old free
  list and do not overlap the placed rectangle.
\<close>

lemma placeRectLoop_inv:
  assumes "\<forall>k. k < i \<and> k < length frees \<longrightarrow> \<not> interiorsMeet (frees ! k) used"
    and "\<forall>r \<in> set frees. \<exists>f \<in> F. isContained r f"
  shows "\<forall>r \<in> set (placeRectLoop used frees i).
           (\<exists>f \<in> F. isContained r f) \<and> \<not> interiorsMeet r used"
  using assms
proof (induction used frees i rule: placeRectLoop.induct)
  case (1 rect frees i)
  show ?case
  proof (cases "i < length frees")
    case False
    then have "placeRectLoop rect frees i = frees"
      by (subst placeRectLoop.simps) simp
    moreover have "\<not> interiorsMeet r rect" if "r \<in> set frees" for r
    proof -
      from that obtain k where "k < length frees" "frees ! k = r"
        by (auto simp: in_set_conv_nth)
      then show ?thesis using "1.prems"(1) False by auto
    qed
    ultimately show ?thesis using "1.prems"(2) by auto
  next
    case True
    obtain hit pushed where sp: "splitFreeNode (frees ! i) rect = (hit, pushed)"
      by (cases "splitFreeNode (frees ! i) rect")
    obtain f where f: "f \<in> F" "isContained (frees ! i) f"
      using "1.prems"(2) nth_mem [OF True] by blast
    have pushedF: "\<forall>p \<in> set pushed. \<exists>f \<in> F. isContained p f"
      using splitFreeNode_pushed(1) [OF sp] f isContained_trans by blast
    have all': "\<forall>r \<in> set (frees @ pushed). \<exists>f \<in> F. isContained r f"
      using "1.prems"(2) pushedF by auto
    show ?thesis
    proof (cases hit)
      case hit: True
      have eq: "placeRectLoop rect frees i
                  = placeRectLoop rect (spliceOut i (frees @ pushed)) i"
        using True sp hit by (subst placeRectLoop.simps) simp
      have before: "\<forall>k. k < i \<and> k < length (spliceOut i (frees @ pushed))
                      \<longrightarrow> \<not> interiorsMeet (spliceOut i (frees @ pushed) ! k) rect"
      proof (intro allI impI)
        fix k
        assume k: "k < i \<and> k < length (spliceOut i (frees @ pushed))"
        then have "spliceOut i (frees @ pushed) ! k = frees ! k"
          using True by (simp add: nth_spliceOut_before nth_append)
        then show "\<not> interiorsMeet (spliceOut i (frees @ pushed) ! k) rect"
          using "1.prems"(1) k True by simp
      qed
      have all'': "\<forall>r \<in> set (spliceOut i (frees @ pushed)). \<exists>f \<in> F. isContained r f"
        using all' set_spliceOut [of i "frees @ pushed"] by blast
      have "\<forall>r \<in> set (placeRectLoop rect (spliceOut i (frees @ pushed)) i).
              (\<exists>f \<in> F. isContained r f) \<and> \<not> interiorsMeet r rect"
        using True sp hit before all'' by (intro "1.IH"(1) [of hit pushed]) simp_all
      then show ?thesis using eq by simp
    next
      case miss: False
      have eq: "placeRectLoop rect frees i = placeRectLoop rect (frees @ pushed) (i + 1)"
        using True sp miss by (subst placeRectLoop.simps) simp
      have away: "\<not> interiorsMeet (frees ! i) rect"
        using splitFreeNode_miss(2) sp miss by simp
      have before: "\<forall>k. k < i + 1 \<and> k < length (frees @ pushed)
                      \<longrightarrow> \<not> interiorsMeet ((frees @ pushed) ! k) rect"
      proof (intro allI impI)
        fix k
        assume k: "k < i + 1 \<and> k < length (frees @ pushed)"
        show "\<not> interiorsMeet ((frees @ pushed) ! k) rect"
        proof (cases "k = i")
          case True
          then show ?thesis using away \<open>i < length frees\<close> by (simp add: nth_append)
        next
          case False
          then have "k < i" using k by simp
          then show ?thesis using "1.prems"(1) \<open>i < length frees\<close> by (simp add: nth_append)
        qed
      qed
      have "\<forall>r \<in> set (placeRectLoop rect (frees @ pushed) (i + 1)).
              (\<exists>f \<in> F. isContained r f) \<and> \<not> interiorsMeet r rect"
        using True sp miss before all' by (intro "1.IH"(2) [of hit pushed]) simp_all
      then show ?thesis using eq by simp
    qed
  qed
qed

lemma set_pruneLoop: "set (pruneLoop frees i j) \<subseteq> set frees"
proof (induction frees i j rule: pruneLoop.induct)
  case (1 frees i j)
  show ?case
  proof (cases "i < length frees")
    case False
    then show ?thesis by (subst pruneLoop.simps) simp
  next
    case i: True
    show ?thesis
    proof (cases "j < length frees")
      case False
      have "set (pruneLoop frees (i + 1) (i + 2)) \<subseteq> set frees"
        using i False by (intro "1.IH"(4)) simp_all
      then show ?thesis using i False by (subst pruneLoop.simps) simp
    next
      case j: True
      show ?thesis
      proof (cases "isContained (frees ! i) (frees ! j)")
        case True
        have "set (pruneLoop (spliceOut i frees) i (i + 1)) \<subseteq> set (spliceOut i frees)"
          using i j True by (intro "1.IH"(1)) simp_all
        then show ?thesis
          using i j True set_spliceOut [of i frees] by (subst pruneLoop.simps) auto
      next
        case first: False
        show ?thesis
        proof (cases "isContained (frees ! j) (frees ! i)")
          case True
          have "set (pruneLoop (spliceOut j frees) i j) \<subseteq> set (spliceOut j frees)"
            using i j first True by (intro "1.IH"(2)) simp_all
          then show ?thesis
            using i j first True set_spliceOut [of j frees] by (subst pruneLoop.simps) auto
        next
          case False
          have "set (pruneLoop frees i (j + 1)) \<subseteq> set frees"
            using i j first False by (intro "1.IH"(3)) simp_all
          then show ?thesis using i j first False by (subst pruneLoop.simps) simp
        qed
      qed
    qed
  qed
qed

lemma set_pruneFreeList: "set (pruneFreeList frees) \<subseteq> set frees"
  using set_pruneLoop [of frees 0 1] by (simp add: pruneFreeList_def)

lemma placeRect_free:
  assumes "r \<in> set (freeRects (placeRect packer used))"
  shows "(\<exists>f \<in> set (freeRects packer). isContained r f) \<and> \<not> interiorsMeet r used"
proof -
  have "r \<in> set (placeRectLoop used (freeRects packer) 0)"
    using assms set_pruneFreeList by (auto simp: placeRect_def)
  moreover have "\<forall>r \<in> set (placeRectLoop used (freeRects packer) 0).
      (\<exists>f \<in> set (freeRects packer). isContained r f) \<and> \<not> interiorsMeet r used"
    using isContained_refl by (intro placeRectLoop_inv) auto
  ultimately show ?thesis by blast
qed

text \<open>
  A node found by \<open>findBestNode\<close> sits in the top-left corner of a free rectangle that is
  at least as wide and as high.
\<close>

lemma considerFree_inv:
  assumes "fst best \<le> MAX_VALUE"
    and "fst best < MAX_VALUE \<longrightarrow> (\<exists>f \<in> F. isContained (snd best) f)"
    and "free \<in> F"
  shows "fst (considerFree w h best free) \<le> MAX_VALUE"
    and "fst (considerFree w h best free) < MAX_VALUE
           \<longrightarrow> (\<exists>f \<in> F. isContained (snd (considerFree w h best free)) f)"
proof -
  show "fst (considerFree w h best free) \<le> MAX_VALUE"
    using assms(1) by (auto simp: considerFree_def Let_def)
  have "isContained \<lparr>rect_x = rect_x free, rect_y = rect_y free, rect_width = w,
          rect_height = h\<rparr> free"
    if "rect_width free \<ge> w" "rect_height free \<ge> h"
    using that by (simp add: isContained_def)
  then show "fst (considerFree w h best free) < MAX_VALUE
           \<longrightarrow> (\<exists>f \<in> F. isContained (snd (considerFree w h best free)) f)"
    using assms(2,3) by (auto simp: considerFree_def Let_def)
qed

lemma foldl_considerFree_inv:
  assumes "fst best \<le> MAX_VALUE"
    and "fst best < MAX_VALUE \<longrightarrow> (\<exists>f \<in> F. isContained (snd best) f)"
    and "set frees \<subseteq> F"
  shows "fst (foldl (considerFree w h) best frees) \<le> MAX_VALUE
         \<and> (fst (foldl (considerFree w h) best frees) < MAX_VALUE
              \<longrightarrow> (\<exists>f \<in> F. isContained (snd (foldl (considerFree w h) best frees)) f))"
  using assms
proof (induction frees arbitrary: best)
  case Nil
  then show ?case by simp
next
  case (Cons free frees)
  have "free \<in> F" using Cons.prems(3) by simp
  from considerFree_inv [OF Cons.prems(1,2) this, of w h] Cons.prems(3)
  show ?case by (simp add: Cons.IH)
qed

lemma findBestNode_in_free:
  assumes "fst (findBestNode frees w h) \<noteq> MAX_VALUE"
  shows "\<exists>f \<in> set frees. isContained (snd (findBestNode frees w h)) f"
  using assms
    foldl_considerFree_inv [of "(MAX_VALUE, \<lparr>rect_x = 0, rect_y = 0, rect_width = 0,
      rect_height = 0\<rparr>)" "set frees" frees w h]
  by (simp add: findBestNode_def)

lemma findBestNode_size:
  "fst (findBestNode frees w h) \<noteq> MAX_VALUE \<Longrightarrow>
     rect_width (snd (findBestNode frees w h)) = w
     \<and> rect_height (snd (findBestNode frees w h)) = h"
proof -
  have "fst (foldl (considerFree w h) best frees) = fst best
          \<and> snd (foldl (considerFree w h) best frees) = snd best
        \<or> rect_width (snd (foldl (considerFree w h) best frees)) = w
          \<and> rect_height (snd (foldl (considerFree w h) best frees)) = h" for best
  proof (induction frees arbitrary: best)
    case Nil
    then show ?case by simp
  next
    case (Cons free frees)
    have step: "considerFree w h best free = best
          \<or> rect_width (snd (considerFree w h best free)) = w
            \<and> rect_height (snd (considerFree w h best free)) = h"
      by (auto simp: considerFree_def Let_def)
    have keep: "rect_width (snd b) = w \<and> rect_height (snd b) = h \<Longrightarrow>
       rect_width (snd (foldl (considerFree w h) b frees)) = w
       \<and> rect_height (snd (foldl (considerFree w h) b frees)) = h" for b
      using Cons.IH [of b] by auto
    from step show ?case
    proof
      assume "considerFree w h best free = best"
      then show ?thesis using Cons.IH [of best] by simp
    next
      assume "rect_width (snd (considerFree w h best free)) = w
            \<and> rect_height (snd (considerFree w h best free)) = h"
      from keep [OF this] show ?thesis by simp
    qed
  qed
  from this [of "(MAX_VALUE, \<lparr>rect_x = 0, rect_y = 0, rect_width = 0, rect_height = 0\<rparr>)"]
  show "fst (findBestNode frees w h) \<noteq> MAX_VALUE \<Longrightarrow>
     rect_width (snd (findBestNode frees w h)) = w
     \<and> rect_height (snd (findBestNode frees w h)) = h"
    by (auto simp: findBestNode_def)
qed


text \<open>
  The invariant of one page: no free rectangle overlaps a packed rectangle grown by the
  padding, and the grown packed rectangles are pairwise apart.
\<close>

definition pageInv :: "int \<Rightarrow> MaxRectsPacker \<Rightarrow> PackedRect list \<Rightarrow> bool" where
  "pageInv padding packer pageItems \<longleftrightarrow>
     packer_padding packer = padding
     \<and> (\<forall>f \<in> set (freeRects packer). \<forall>p \<in> set pageItems.
           \<not> interiorsMeet f (inflate padding p))
     \<and> pairwiseApart padding pageItems"

lemma pairwiseApart_snoc:
  "pairwiseApart padding (ps @ [q]) \<longleftrightarrow>
     pairwiseApart padding ps
     \<and> (\<forall>p \<in> set ps. \<not> interiorsMeet (inflate padding p) (inflate padding q))"
proof
  assume a: "pairwiseApart padding (ps @ [q])"
  have "pairwiseApart padding ps"
    unfolding pairwiseApart_def
  proof (intro allI impI)
    fix i j
    assume ij: "i < j \<and> j < length ps"
    then have "\<not> interiorsMeet (inflate padding ((ps @ [q]) ! i))
                 (inflate padding ((ps @ [q]) ! j))"
      using a unfolding pairwiseApart_def by simp
    then show "\<not> interiorsMeet (inflate padding (ps ! i)) (inflate padding (ps ! j))"
      using ij by (simp add: nth_append)
  qed
  moreover have "\<not> interiorsMeet (inflate padding p) (inflate padding q)" if "p \<in> set ps" for p
  proof -
    from that obtain i where i: "i < length ps" "ps ! i = p"
      by (auto simp: in_set_conv_nth)
    have "i < length ps \<and> length ps < length (ps @ [q])" using i by simp
    then have "\<not> interiorsMeet (inflate padding ((ps @ [q]) ! i))
                 (inflate padding ((ps @ [q]) ! length ps))"
      using a unfolding pairwiseApart_def by blast
    then show ?thesis using i by (simp add: nth_append)
  qed
  ultimately show "pairwiseApart padding ps
     \<and> (\<forall>p \<in> set ps. \<not> interiorsMeet (inflate padding p) (inflate padding q))"
    by blast
next
  assume a: "pairwiseApart padding ps
     \<and> (\<forall>p \<in> set ps. \<not> interiorsMeet (inflate padding p) (inflate padding q))"
  show "pairwiseApart padding (ps @ [q])"
    unfolding pairwiseApart_def
  proof (intro allI impI)
    fix i j
    assume ij: "i < j \<and> j < length (ps @ [q])"
    show "\<not> interiorsMeet (inflate padding ((ps @ [q]) ! i))
            (inflate padding ((ps @ [q]) ! j))"
    proof (cases "j < length ps")
      case True
      then show ?thesis
        using a ij unfolding pairwiseApart_def by (simp add: nth_append)
    next
      case False
      then have j: "j = length ps" using ij by simp
      then have "ps ! i \<in> set ps" using ij by simp
      then show ?thesis using a j ij by (simp add: nth_append)
    qed
  qed
qed

lemma pageInv_new: "pageInv padding (newPacker width height padding) []"
  by (simp add: pageInv_def newPacker_def pairwiseApart_def)

lemma packer_insert_none:
  "packer_insert packer task = (None, packer') \<Longrightarrow> packer' = packer"
  by (auto simp: packer_insert_def Let_def split: if_splits)

lemma packer_insert_task:
  "packer_insert packer task = (Some rect, packer') \<Longrightarrow> packed_task rect = task"
  by (auto simp: packer_insert_def Let_def split: if_splits)

lemma packer_insert_inv:
  assumes inv: "pageInv padding packer pageItems"
    and ins: "packer_insert packer task = (Some rect, packer')"
  shows "pageInv padding packer' (pageItems @ [rect])"
proof -
  define w where "w = targetWidth task + padding"
  define h where "h = targetHeight task + padding"
  define used where "used = snd (findBestNode (freeRects packer) w h)"
  have pad: "packer_padding packer = padding"
    using inv by (simp add: pageInv_def)
  have found: "fst (findBestNode (freeRects packer) w h) \<noteq> MAX_VALUE"
    using ins pad by (auto simp: packer_insert_def Let_def w_def h_def split: if_splits)
  have rect: "rect = \<lparr>packed_x = rect_x used, packed_y = rect_y used,
                       packed_w = targetWidth task, packed_h = targetHeight task,
                       packed_task = task\<rparr>"
    and packer': "packer' = placeRect packer used"
    using ins pad
    by (auto simp: packer_insert_def Let_def w_def h_def used_def split: if_splits)
  have size: "rect_width used = w" "rect_height used = h"
    using findBestNode_size [OF found] by (simp_all add: used_def)
  have grown: "inflate padding rect = used"
    using size by (simp add: inflate_def rect w_def h_def)
  obtain f where f: "f \<in> set (freeRects packer)" "isContained used f"
    using findBestNode_in_free [OF found] by (auto simp: used_def)
  have old_free: "\<not> interiorsMeet g (inflate padding p)"
    if "g \<in> set (freeRects packer)" "p \<in> set pageItems" for g p
    using inv that by (simp add: pageInv_def)
  have used_old: "\<not> interiorsMeet (inflate padding p) used" if "p \<in> set pageItems" for p
  proof
    assume "interiorsMeet (inflate padding p) used"
    then have "interiorsMeet used (inflate padding p)"
      by (simp add: interiorsMeet_sym)
    then have "interiorsMeet f (inflate padding p)"
      using f(2) interiorsMeet_mono by blast
    then show False using old_free [OF f(1) that] by simp
  qed
  have new_free: "\<not> interiorsMeet r (inflate padding p)"
    if "r \<in> set (freeRects packer')" "p \<in> set (pageItems @ [rect])" for r p
  proof -
    from placeRect_free that(1) obtain g where
      g: "g \<in> set (freeRects packer)" "isContained r g" and
      away: "\<not> interiorsMeet r used"
      unfolding packer' by blast
    show ?thesis
    proof (cases "p = rect")
      case True
      then show ?thesis using away grown by simp
    next
      case False
      then have "p \<in> set pageItems" using that(2) by simp
      then have "\<not> interiorsMeet g (inflate padding p)" using old_free g(1) by simp
      then show ?thesis using g(2) interiorsMeet_mono by blast
    qed
  qed
  have "pairwiseApart padding (pageItems @ [rect])"
    using inv used_old grown by (simp add: pairwiseApart_snoc pageInv_def)
  moreover have "packer_padding packer' = padding"
    using pad by (simp add: packer' placeRect_def)
  ultimately show ?thesis
    using new_free unfolding pageInv_def by blast
qed

lemma fillPage_inv:
  assumes "pageInv padding packer pageItems"
    and "fillPage maxSize remaining (packer, pageItems, didntFit)
           = (packer', pageItems', didntFit')"
  shows "pageInv padding packer' pageItems'"
  using assms
proof (induction remaining arbitrary: packer pageItems didntFit)
  case Nil
  then show ?case by simp
next
  case (Cons task remaining)
  show ?case
  proof (cases "targetWidth task > maxSize \<or> targetHeight task > maxSize")
    case True
    with Cons.prems(2) have "fillPage maxSize remaining (packer, pageItems, didntFit)
        = (packer', pageItems', didntFit')" by simp
    from Cons.IH [OF Cons.prems(1) this] show ?thesis .
  next
    case False
    obtain placed packer1 where ins: "packer_insert packer task = (placed, packer1)"
      by (cases "packer_insert packer task")
    show ?thesis
    proof (cases placed)
      case None
      with Cons.prems(2) False ins have run: "fillPage maxSize remaining
          (packer1, pageItems, didntFit @ [task]) = (packer', pageItems', didntFit')" by simp
      have "packer1 = packer" using ins None packer_insert_none by simp
      with Cons.prems(1) have "pageInv padding packer1 pageItems" by simp
      from Cons.IH [OF this run] show ?thesis .
    next
      case (Some rect)
      with Cons.prems(2) False ins have run: "fillPage maxSize remaining
          (packer1, pageItems @ [rect], didntFit) = (packer', pageItems', didntFit')" by simp
      have "pageInv padding packer1 (pageItems @ [rect])"
        using packer_insert_inv [OF Cons.prems(1)] ins Some by simp
      from Cons.IH [OF this run] show ?thesis .
    qed
  qed
qed

lemma fillPage_fits:
  assumes "\<forall>r \<in> set pageItems. targetWidth (packed_task r) \<le> maxSize
                                  \<and> targetHeight (packed_task r) \<le> maxSize"
    and "fillPage maxSize remaining (packer, pageItems, didntFit)
           = (packer', pageItems', didntFit')"
  shows "\<forall>r \<in> set pageItems'. targetWidth (packed_task r) \<le> maxSize
                                  \<and> targetHeight (packed_task r) \<le> maxSize"
  using assms
proof (induction remaining arbitrary: packer pageItems didntFit)
  case Nil
  then show ?case by simp
next
  case (Cons task remaining)
  show ?case
  proof (cases "targetWidth task > maxSize \<or> targetHeight task > maxSize")
    case True
    with Cons.prems(2) have "fillPage maxSize remaining (packer, pageItems, didntFit)
        = (packer', pageItems', didntFit')" by simp
    from Cons.IH [OF Cons.prems(1) this] show ?thesis .
  next
    case False
    obtain placed packer1 where ins: "packer_insert packer task = (placed, packer1)"
      by (cases "packer_insert packer task")
    show ?thesis
    proof (cases placed)
      case None
      with Cons.prems(2) False ins have run: "fillPage maxSize remaining
          (packer1, pageItems, didntFit @ [task]) = (packer', pageItems', didntFit')" by simp
      from Cons.IH [OF Cons.prems(1) run] show ?thesis .
    next
      case (Some rect)
      with Cons.prems(2) False ins have run: "fillPage maxSize remaining
          (packer1, pageItems @ [rect], didntFit) = (packer', pageItems', didntFit')" by simp
      have "packed_task rect = task" using ins Some packer_insert_task by simp
      then have "\<forall>r \<in> set (pageItems @ [rect]). targetWidth (packed_task r) \<le> maxSize
                                  \<and> targetHeight (packed_task r) \<le> maxSize"
        using Cons.prems(1) False by auto
      from Cons.IH [OF this run] show ?thesis .
    qed
  qed
qed

text \<open>Every page of the loop carries the items of one run of \<open>fillPage\<close> on a new packer.\<close>

lemma packLoop_pages:
  assumes "\<forall>page \<in> set pages. Q (items page)"
    and "\<forall>remaining packer pageItems didntFit.
           fillPage maxSize remaining (newPacker maxSize maxSize padding, [], [])
             = (packer, pageItems, didntFit) \<longrightarrow> Q pageItems"
  shows "\<forall>page \<in> set (packLoop maxSize padding currentPageIndex remaining pages).
           Q (items page)"
  using assms
proof (induction maxSize padding currentPageIndex remaining pages rule: packLoop.induct)
  case (1 maxSize padding currentPageIndex remaining pages)
  show ?case
  proof (cases "length remaining > 0")
    case False
    then show ?thesis using "1.prems"(1) by (subst packLoop.simps) simp
  next
    case True
    obtain packer pageItems didntFit where
      run: "fillPage maxSize remaining (newPacker maxSize maxSize padding, [], [])
              = (packer, pageItems, didntFit)"
      by (cases "fillPage maxSize remaining (newPacker maxSize maxSize padding, [], [])")
    have q: "Q pageItems" using "1.prems"(2) run by blast
    have pages': "\<forall>page \<in> set (pages @ [pageOf currentPageIndex maxSize pageItems]).
                    Q (items page)"
      using "1.prems"(1) q by (simp add: pageOf_def Let_def)
    show ?thesis
    proof (cases "length pageItems = 0 \<and> length didntFit = length remaining")
      case stop: True
      have "packLoop maxSize padding currentPageIndex remaining pages
              = pages @ [pageOf currentPageIndex maxSize pageItems]"
        using True run stop by (subst packLoop.simps) simp
      then show ?thesis using pages' by simp
    next
      case go: False
      have "packLoop maxSize padding currentPageIndex remaining pages
              = packLoop maxSize padding (currentPageIndex + 1) didntFit
                  (pages @ [pageOf currentPageIndex maxSize pageItems])"
        using True run go by (subst packLoop.simps) auto
      moreover have "\<forall>page \<in> set (packLoop maxSize padding (currentPageIndex + 1) didntFit
                  (pages @ [pageOf currentPageIndex maxSize pageItems])). Q (items page)"
        using True run go pages' "1.prems"(2)
        by (intro "1.IH" [of packer "(pageItems, didntFit)" pageItems didntFit]) simp_all
      ultimately show ?thesis by simp
    qed
  qed
qed


text \<open>
  C5. On every page the packer returns, any two packed rectangles are apart once each is
  grown by the padding on its right and bottom edges: the interiors of the grown
  rectangles do not meet. This holds for every task list, page size and padding (the sign
  of the padding plays no role).
\<close>

theorem packed_rects_never_overlap:
  "\<forall>page \<in> set (packAtlases tasks maxSize padding).
     \<forall>i j. i < j \<and> j < length (items page) \<longrightarrow>
       \<not> interiorsMeet (inflate padding (items page ! i)) (inflate padding (items page ! j))"
proof -
  have run: "\<forall>remaining packer pageItems didntFit.
      fillPage maxSize remaining (newPacker maxSize maxSize padding, [], [])
        = (packer, pageItems, didntFit) \<longrightarrow> pairwiseApart padding pageItems"
  proof (intro allI impI)
    fix remaining packer pageItems didntFit
    assume "fillPage maxSize remaining (newPacker maxSize maxSize padding, [], [])
              = (packer, pageItems, didntFit)"
    from fillPage_inv [OF pageInv_new this] show "pairwiseApart padding pageItems"
      by (simp add: pageInv_def)
  qed
  have "\<forall>page \<in> set (packAtlases tasks maxSize padding). pairwiseApart padding (items page)"
    unfolding packAtlases_def Let_def
    by (rule packLoop_pages [where Q = "pairwiseApart padding"]) (simp, rule run)
  then show ?thesis
    unfolding pairwiseApart_def by blast
qed

theorem packed_rects_never_overlap_witness:
  "length (packAtlases [exampleTask ''A'' 10 10, exampleTask ''B'' 20 30,
             exampleTask ''C'' 10 10] 64 2) = 1
   \<and> map packed_y (items (hd (packAtlases [exampleTask ''A'' 10 10, exampleTask ''B'' 20 30,
             exampleTask ''C'' 10 10] 64 2))) = [0, 32, 44]
   \<and> \<not> interiorsMeet
         (inflate 2 (items (hd (packAtlases [exampleTask ''A'' 10 10, exampleTask ''B'' 20 30,
             exampleTask ''C'' 10 10] 64 2)) ! 1))
         (inflate 2 (items (hd (packAtlases [exampleTask ''A'' 10 10, exampleTask ''B'' 20 30,
             exampleTask ''C'' 10 10] 64 2)) ! 2))"
proof -
  let ?pages = "packAtlases [exampleTask ''A'' 10 10, exampleTask ''B'' 20 30,
                  exampleTask ''C'' 10 10] 64 2"
  have len: "length ?pages = 1"
    by code_simp
  have ys: "map packed_y (items (hd ?pages)) = [0, 32, 44]"
    by code_simp
  have mem: "hd ?pages \<in> set ?pages"
    using len by (cases ?pages) simp_all
  have "length (items (hd ?pages)) = 3"
    using ys by (metis length_map length_Cons list.size(3) numeral_3_eq_3)
  then have idx: "(1::nat) < 2 \<and> 2 < length (items (hd ?pages))"
    by simp
  have "\<not> interiorsMeet (inflate 2 (items (hd ?pages) ! 1)) (inflate 2 (items (hd ?pages) ! 2))"
    using packed_rects_never_overlap [of "[exampleTask ''A'' 10 10, exampleTask ''B'' 20 30,
      exampleTask ''C'' 10 10]" 64 2] mem idx by blast
  then show ?thesis using len ys by simp
qed

text \<open>
  C4 (as the code has it). A task whose target width or target height exceeds the page
  size is placed on no page. It is skipped without a record: the result is the list of
  pages only, so that packing the single task 2200 x 100 on pages of 2048 returns one
  empty page and nothing else.
\<close>

theorem oversized_tasks_are_skipped:
  "(targetWidth t > maxSize \<or> targetHeight t > maxSize \<longrightarrow>
      (\<forall>page \<in> set (packAtlases tasks maxSize padding).
         \<forall>r \<in> set (items page). packed_task r \<noteq> t))
   \<and> packAtlases [exampleTask ''wide'' 2200 100] 2048 2
       = [\<lparr>page_id = 0, page_width = 2048, page_height = 2048, items = [],
            efficiency = Some 0\<rparr>]"
proof (intro conjI impI)
  have run: "\<forall>remaining packer pageItems didntFit.
      fillPage maxSize remaining (newPacker maxSize maxSize padding, [], [])
        = (packer, pageItems, didntFit) \<longrightarrow>
      (\<forall>r \<in> set pageItems. targetWidth (packed_task r) \<le> maxSize
                            \<and> targetHeight (packed_task r) \<le> maxSize)"
  proof (intro allI impI)
    fix remaining packer pageItems didntFit
    assume "fillPage maxSize remaining (newPacker maxSize maxSize padding, [], [])
              = (packer, pageItems, didntFit)"
    then show "\<forall>r \<in> set pageItems. targetWidth (packed_task r) \<le> maxSize
                            \<and> targetHeight (packed_task r) \<le> maxSize"
      by (rule fillPage_fits [rotated]) simp
  qed
  have fits: "\<forall>page \<in> set (packAtlases tasks maxSize padding).
      \<forall>r \<in> set (items page). targetWidth (packed_task r) \<le> maxSize
                            \<and> targetHeight (packed_task r) \<le> maxSize"
    unfolding packAtlases_def Let_def
    by (rule packLoop_pages [where Q = "\<lambda>pageItems. \<forall>r \<in> set pageItems.
          targetWidth (packed_task r) \<le> maxSize \<and> targetHeight (packed_task r) \<le> maxSize"])
       (simp, rule run)
  assume "targetWidth t > maxSize \<or> targetHeight t > maxSize"
  then show "\<forall>page \<in> set (packAtlases tasks maxSize padding).
         \<forall>r \<in> set (items page). packed_task r \<noteq> t"
    using fits by fastforce
next
  show "packAtlases [exampleTask ''wide'' 2200 100] 2048 2
       = [\<lparr>page_id = 0, page_width = 2048, page_height = 2048, items = [],
            efficiency = Some 0\<rparr>]"
    by code_simp
qed

theorem oversized_tasks_are_skipped_witness:
  "targetWidth (exampleTask ''wide'' 2200 100) > 2048
   \<and> length (packAtlases [exampleTask ''small'' 100 100, exampleTask ''wide'' 2200 100]
               2048 2) = 1
   \<and> length (items (hd (packAtlases [exampleTask ''small'' 100 100,
               exampleTask ''wide'' 2200 100] 2048 2))) = 1
   \<and> packed_task (hd (items (hd (packAtlases [exampleTask ''small'' 100 100,
               exampleTask ''wide'' 2200 100] 2048 2)))) \<noteq> exampleTask ''wide'' 2200 100"
proof -
  let ?pages = "packAtlases [exampleTask ''small'' 100 100, exampleTask ''wide'' 2200 100]
                  2048 2"
  have big: "targetWidth (exampleTask ''wide'' 2200 100) > 2048"
    by (simp add: exampleTask_def)
  have len: "length ?pages = 1"
    by code_simp
  have n: "length (items (hd ?pages)) = 1"
    by code_simp
  have mem: "hd ?pages \<in> set ?pages"
    using len by (cases ?pages) simp_all
  have item: "hd (items (hd ?pages)) \<in> set (items (hd ?pages))"
    using n by (cases "items (hd ?pages)") simp_all
  have "packed_task (hd (items (hd ?pages))) \<noteq> exampleTask ''wide'' 2200 100"
    using oversized_tasks_are_skipped [of 2048 "exampleTask ''wide'' 2200 100"
        "[exampleTask ''small'' 100 100, exampleTask ''wide'' 2200 100]" 2, THEN conjunct1]
      big mem item by blast
  then show ?thesis using big len n by simp
qed

text \<open>
  The result for a task list with an oversized task is the result for the list without
  it: nothing in the result names the oversized task.
\<close>

theorem oversized_task_is_not_reported:
  "packAtlases [exampleTask ''small'' 100 100, exampleTask ''wide'' 2200 100] 2048 2
   = packAtlases [exampleTask ''small'' 100 100] 2048 2"
  by code_simp

text \<open>
  C3 (as the code has it). Each task is placed with its size grown by the padding, so
  that two tasks of 1024 x 1024 with padding 2 need 1026 pixels each and do not share a
  page of 2048: the packer returns two pages with one packed rectangle each, at an
  efficiency of 25 percent each. With padding 0 the two tasks share one page at an
  efficiency of 50 percent.
\<close>

theorem two_padded_1024_tasks_take_two_pages:
  "map page_id (packAtlases [exampleTask ''A'' 1024 1024, exampleTask ''B'' 1024 1024]
      2048 2) = [0, 1]
   \<and> map (length \<circ> items) (packAtlases [exampleTask ''A'' 1024 1024,
      exampleTask ''B'' 1024 1024] 2048 2) = [1, 1]
   \<and> map efficiency (packAtlases [exampleTask ''A'' 1024 1024, exampleTask ''B'' 1024 1024]
      2048 2) = [Some 25, Some 25]
   \<and> map (length \<circ> items) (packAtlases [exampleTask ''A'' 1024 1024,
      exampleTask ''B'' 1024 1024] 2048 0) = [2]
   \<and> map efficiency (packAtlases [exampleTask ''A'' 1024 1024, exampleTask ''B'' 1024 1024]
      2048 0) = [Some 50]"
  by code_simp

theorem two_padded_1024_tasks_not_on_one_page:
  "length (packAtlases [exampleTask ''A'' 1024 1024, exampleTask ''B'' 1024 1024] 2048 2)
     \<noteq> 1"
  by code_simp

section \<open>Image lookup (src/utils/spineParser.ts, findImage)\<close>

text \<open>
  A path is any JavaScript string: a sequence of 16-bit code units (UTF-16). The methods
  of \<open>String.prototype\<close> that \<open>findImage\<close> calls are modelled on code units, as they are
  specified: \<open>indexOf\<close>, \<open>endsWith\<close>, \<open>length\<close> and a regular expression without the
  \<open>u\<close> flag compare code units. \<open>unit\<close> and \<open>units\<close> spell a code unit and a string
  with ASCII characters.
\<close>

type_synonym codeUnit = "16 word"

type_synonym jsString = "codeUnit list"

definition unit :: "char \<Rightarrow> codeUnit" where
  "unit c = of_char c"

definition units :: "string \<Rightarrow> jsString" where
  "units s = map unit s"

text \<open>
  \<open>String.prototype.trim\<close> removes, at both ends, the code points of \<open>WhiteSpace\<close> and
  \<open>LineTerminator\<close> (ECMA-262, \<open>TrimString\<close>): tab, line feed, vertical tab, form feed,
  carriage return, space, no-break space \<open>U+00A0\<close>, \<open>U+1680\<close>, \<open>U+2000\<close> to \<open>U+200A\<close>,
  the line and paragraph separators \<open>U+2028\<close> and \<open>U+2029\<close>, \<open>U+202F\<close>, \<open>U+205F\<close>,
  \<open>U+3000\<close> and the byte order mark \<open>U+FEFF\<close>. Each of them is one code unit.
\<close>

definition isStrWhiteSpaceChar :: "codeUnit \<Rightarrow> bool" where
  "isStrWhiteSpaceChar u \<longleftrightarrow>
     (0x0009 \<le> u \<and> u \<le> 0x000D) \<or> u = 0x0020 \<or> u = 0x00A0 \<or> u = 0x1680
     \<or> (0x2000 \<le> u \<and> u \<le> 0x200A) \<or> u = 0x2028 \<or> u = 0x2029 \<or> u = 0x202F
     \<or> u = 0x205F \<or> u = 0x3000 \<or> u = 0xFEFF"

definition trimString :: "jsString \<Rightarrow> jsString" where
  "trimString s = rev (dropWhile isStrWhiteSpaceChar (rev (dropWhile isStrWhiteSpaceChar s)))"

text \<open>\<open>s.replace(/\\/g, '/')\<close>\<close>

definition replaceBackslashes :: "jsString \<Rightarrow> jsString" where
  "replaceBackslashes s = map (\<lambda>u. if u = unit (CHR 0x5C) then unit CHR ''/'' else u) s"

text \<open>
  \<open>String.prototype.toLowerCase\<close> is the lower-case mapping of the Unicode Character
  Database that the engine was built with (the Default Case Conversion, with its
  mappings from one code point to several and its rule for a final sigma). It is taken
  as the function \<open>toLower\<close> of the host, and the lookup is defined for every such
  function.
\<close>

definition normalizePath :: "(jsString \<Rightarrow> jsString) \<Rightarrow> jsString \<Rightarrow> jsString" where
  "normalizePath toLower path = toLower (replaceBackslashes (trimString path))"

text \<open>The array \<open>extensions\<close> of \<open>findImage\<close>.\<close>

definition imageExtensions :: "jsString list" where
  "imageExtensions = map units [''.png'', ''.jpg'', ''.jpeg'', ''.webp'']"

text \<open>
  Step 2, the loop \<^verbatim>\<open>for (const ext of extensions)\<close> with its early return.
  \<open>has(k)\<close> followed by \<open>get(k)\<close> is one lookup with \<open>map_of\<close>.
\<close>

fun firstWithExtension ::
  "(jsString \<times> 'a) list \<Rightarrow> jsString \<Rightarrow> jsString list \<Rightarrow> (jsString \<times> 'a) option" where
  "firstWithExtension availableFiles normalizedPath [] = None"
| "firstWithExtension availableFiles normalizedPath (ext # exts) =
     (case map_of availableFiles (normalizedPath @ ext) of
        Some data \<Rightarrow> Some (normalizedPath @ ext, data)
      | None \<Rightarrow> firstWithExtension availableFiles normalizedPath exts)"

definition searchSuffixes :: "jsString \<Rightarrow> jsString list" where
  "searchSuffixes normalizedPath =
     (units ''/'' @ normalizedPath)
     # (if unit CHR ''.'' \<notin> set normalizedPath
        then map (\<lambda>ext. units ''/'' @ normalizedPath @ ext) imageExtensions else [])"

text \<open>
  Step 3, the body of the two nested loops: \<open>best\<close> is \<open>(bestMatchKey, bestMatchLen)\<close>.
\<close>

definition considerSuffix ::
  "jsString \<Rightarrow> jsString option \<times> int \<Rightarrow> jsString \<Rightarrow> jsString option \<times> int" where
  "considerSuffix fileKey best sfx =
     (if suffix sfx fileKey
      then (if int (length fileKey) < snd best
            then (Some fileKey, int (length fileKey)) else best)
      else best)"

definition considerKey ::
  "jsString list \<Rightarrow> jsString option \<times> int \<Rightarrow> jsString \<Rightarrow> jsString option \<times> int" where
  "considerKey searchSfxs best fileKey = foldl (considerSuffix fileKey) best searchSfxs"

definition findImage ::
  "(jsString \<Rightarrow> jsString) \<Rightarrow> (jsString \<times> 'a) list \<Rightarrow> jsString \<Rightarrow> (jsString \<times> 'a) option" where
  "findImage toLower availableFiles path =
     (let normalizedPath = normalizePath toLower path in
      case map_of availableFiles normalizedPath of
        Some data \<Rightarrow> Some (normalizedPath, data)
      | None \<Rightarrow>
          let hasExtension = (unit CHR ''.'' \<in> set normalizedPath) in
          (case (if \<not> hasExtension
                 then firstWithExtension availableFiles normalizedPath imageExtensions
                 else None) of
             Some found \<Rightarrow> Some found
           | None \<Rightarrow>
               let best = foldl (considerKey (searchSuffixes normalizedPath))
                            (None, MAX_VALUE) (map fst availableFiles)
               in (case fst best of
                     None \<Rightarrow> None
                   | Some bestMatchKey \<Rightarrow>
                       if bestMatchKey = [] then None
                       else (case map_of availableFiles bestMatchKey of
                               Some data \<Rightarrow> Some (bestMatchKey, data)
                             | None \<Rightarrow> None))))"



section \<open>Properties of the image lookup\<close>








text \<open>
  The normalization on paths outside ASCII: a no-break space before the name is trimmed,
  and whenever the engine lowers \<open>U+00C9\<close> (E with acute) to \<open>U+00E9\<close>, the path
  \<open>U+00C9\<close> finds the image indexed under \<open>U+00E9\<close>.
\<close>

lemma trimString_no_break_space:
  "trimString (0x00A0 # units ''hero'' @ [0x3000, 0xFEFF]) = units ''hero''"
  by code_simp

lemma findImage_lowers_outside_ascii:
  assumes "toLower [0x00C9] = [0x00E9]"
  shows "findImage toLower [([0x00E9], data)] [0x00C9] = Some ([0x00E9], data)"
proof -
  have "replaceBackslashes (trimString [0x00C9]) = [0x00C9]"
    by code_simp
  then show ?thesis
    using assms by (simp add: findImage_def normalizePath_def)
qed




section \<open>Optimized archive (resizeImage, generateOptimizedZip)\<close>

text \<open>
  The body of the \<open>try\<close> block of \<open>resizeImage\<close> (decoding, the floating-point resampling
  and the export through WebGL) is a parameter \<open>pipeline\<close>: it either throws (\<open>Inl\<close> with
  the error) or returns what \<open>exportBytesViaWebGL\<close> returns, a blob or \<open>null\<close>.
  \<open>resizeImage\<close> catches every error and returns \<open>null\<close> for it.
\<close>

type_synonym pipeline = "Blob \<Rightarrow> int \<Rightarrow> int \<Rightarrow> bool \<Rightarrow> string + Blob option"

definition resizeImage :: "pipeline \<Rightarrow> Blob \<Rightarrow> int \<Rightarrow> int \<Rightarrow> bool \<Rightarrow> Blob option" where
  "resizeImage pipeline source width height isSourcePremultiplied =
     (case pipeline source width height isSourcePremultiplied of
        Inl e \<Rightarrow> None
      | Inr result \<Rightarrow> result)"

text \<open>
  The effects of \<open>generateOptimizedZip\<close>: the calls \<open>rootFolder.file(name, blob)\<close> and
  \<open>onProgress(current, totalTasks)\<close>, in order, and the counter \<open>completed\<close>.
\<close>

record ZipRun =
  fileCalls :: "(string \<times> Blob) list"
  progressCalls :: "(nat \<times> nat) list"
  completed :: nat

text \<open>The arguments of the call \<open>rootFolder.file(zipEntryName, ...)\<close> for one task.\<close>

definition fileCallFor :: "pipeline \<Rightarrow> bool \<Rightarrow> OptimizationTask \<Rightarrow> string \<times> Blob" where
  "fileCallFor pipeline isSourcePremultiplied task =
     (let zipEntryName = fileName task in
      if isResize task then
        (case resizeImage pipeline (blob task) (targetWidth task) (targetHeight task)
                isSourcePremultiplied of
           Some resizedBlob \<Rightarrow> (zipEntryName, resizedBlob)
         | None \<Rightarrow> (zipEntryName, blob task))
      else (zipEntryName, blob task))"

text \<open>One iteration of the loop over the tasks, for a root folder that exists.\<close>

definition zipTask :: "pipeline \<Rightarrow> bool \<Rightarrow> nat \<Rightarrow> ZipRun \<Rightarrow> OptimizationTask \<Rightarrow> ZipRun" where
  "zipTask pipeline isSourcePremultiplied totalTasks run task =
     \<lparr>fileCalls = fileCalls run @ [fileCallFor pipeline isSourcePremultiplied task],
      progressCalls = progressCalls run @ [(completed run + 1, totalTasks)],
      completed = completed run + 1\<rparr>"

text \<open>
  \<open>rootFolder\<close> is the result of \<open>zip.folder("images_optimized")\<close>; when it is \<open>null\<close> the
  loop breaks before its first task.
\<close>

definition generateOptimizedZip ::
  "pipeline \<Rightarrow> bool \<Rightarrow> OptimizationTask list \<Rightarrow> bool \<Rightarrow> ZipRun" where
  "generateOptimizedZip pipeline hasRootFolder tasks isSourcePremultiplied =
     (if hasRootFolder
      then foldl (zipTask pipeline isSourcePremultiplied (length tasks))
             \<lparr>fileCalls = [], progressCalls = [], completed = 0\<rparr> tasks
      else \<lparr>fileCalls = [], progressCalls = [], completed = 0\<rparr>)"

text \<open>The archive: a later \<open>file\<close> call with the same name replaces the entry.\<close>

definition archive :: "ZipRun \<Rightarrow> (string \<times> Blob) list" where
  "archive run = foldl (\<lambda>entries (name, content). map_set name content entries) []
                   (fileCalls run)"

text \<open>A pipeline that throws on the blob \<open>''broken''\<close> and answers \<open>''small''\<close> otherwise.\<close>

definition examplePipeline :: pipeline where
  "examplePipeline source width height isSourcePremultiplied =
     (if source = ''broken'' then Inl ''WebGL Import Failed'' else Inr (Some ''small''))"

section \<open>Properties of the archive\<close>

lemma resizeImage_throws:
  "pipeline source w h pm = Inl e \<Longrightarrow> resizeImage pipeline source w h pm = None"
  by (simp add: resizeImage_def)

lemma fst_fileCallFor: "fst (fileCallFor pipeline pm task) = fileName task"
  by (simp add: fileCallFor_def Let_def split: option.splits)

lemma fileCallFor_failed:
  "isResize task \<Longrightarrow>
   resizeImage pipeline (blob task) (targetWidth task) (targetHeight task) pm = None \<Longrightarrow>
   fileCallFor pipeline pm task = (fileName task, blob task)"
  by (simp add: fileCallFor_def)

lemma fileCalls_foldl_zipTask:
  "fileCalls (foldl (zipTask pipeline pm totalTasks) run tasks)
     = fileCalls run @ map (fileCallFor pipeline pm) tasks"
  by (induction tasks arbitrary: run) (simp_all add: zipTask_def)

lemma completed_foldl_zipTask:
  "completed (foldl (zipTask pipeline pm totalTasks) run tasks) = completed run + length tasks"
  by (induction tasks arbitrary: run) (simp_all add: zipTask_def)

lemma progressCalls_foldl_zipTask:
  "length (progressCalls (foldl (zipTask pipeline pm totalTasks) run tasks))
     = length (progressCalls run) + length tasks"
  by (induction tasks arbitrary: run) (simp_all add: zipTask_def)

text \<open>
  C8. When the root folder exists, every task leads to one \<open>file\<close> call and one
  \<open>onProgress\<close> call, whatever the resampler does. For a task marked \<open>isResize\<close> whose
  resampling fails (\<open>resizeImage\<close> returns \<open>null\<close>, as it does when the pipeline throws),
  the blob written under the task's file name is the task's source blob, and it is the
  entry of the archive unless a later task writes the same name.
\<close>

theorem failed_resize_keeps_source_blob:
  "length (fileCalls (generateOptimizedZip pipeline True tasks pm)) = length tasks
   \<and> completed (generateOptimizedZip pipeline True tasks pm) = length tasks
   \<and> (\<forall>i < length tasks.
         isResize (tasks ! i)
         \<and> resizeImage pipeline (blob (tasks ! i)) (targetWidth (tasks ! i))
               (targetHeight (tasks ! i)) pm = None
         \<longrightarrow> fileCalls (generateOptimizedZip pipeline True tasks pm) ! i
               = (fileName (tasks ! i), blob (tasks ! i))
             \<and> ((\<forall>j. i < j \<and> j < length tasks \<longrightarrow> fileName (tasks ! j) \<noteq> fileName (tasks ! i))
                  \<longrightarrow> map_of (archive (generateOptimizedZip pipeline True tasks pm))
                        (fileName (tasks ! i)) = Some (blob (tasks ! i))))"
proof -
  let ?run = "generateOptimizedZip pipeline True tasks pm"
  have calls: "fileCalls ?run = map (fileCallFor pipeline pm) tasks"
    by (simp add: generateOptimizedZip_def fileCalls_foldl_zipTask)
  have count: "completed ?run = length tasks"
    by (simp add: generateOptimizedZip_def completed_foldl_zipTask)
  have failed: "fileCalls ?run ! i = (fileName (tasks ! i), blob (tasks ! i))
        \<and> ((\<forall>j. i < j \<and> j < length tasks \<longrightarrow> fileName (tasks ! j) \<noteq> fileName (tasks ! i))
             \<longrightarrow> map_of (archive ?run) (fileName (tasks ! i)) = Some (blob (tasks ! i)))"
    if i: "i < length tasks" and r: "isResize (tasks ! i)"
      and f: "resizeImage pipeline (blob (tasks ! i)) (targetWidth (tasks ! i))
               (targetHeight (tasks ! i)) pm = None" for i
  proof
    show call: "fileCalls ?run ! i = (fileName (tasks ! i), blob (tasks ! i))"
      using i fileCallFor_failed [OF r f] by (simp add: calls)
    show "(\<forall>j. i < j \<and> j < length tasks \<longrightarrow> fileName (tasks ! j) \<noteq> fileName (tasks ! i))
             \<longrightarrow> map_of (archive ?run) (fileName (tasks ! i)) = Some (blob (tasks ! i))"
    proof
      assume last: "\<forall>j. i < j \<and> j < length tasks
                      \<longrightarrow> fileName (tasks ! j) \<noteq> fileName (tasks ! i)"
      have i': "i < length (fileCalls ?run)" using i by (simp add: calls)
      have "\<forall>j. i < j \<and> j < length (fileCalls ?run)
              \<longrightarrow> fst (fileCalls ?run ! j) \<noteq> fst (fileCalls ?run ! i)"
        using last i by (simp add: calls fst_fileCallFor)
      from map_of_rev_last_call [OF i' this]
      have "map_of (rev (fileCalls ?run)) (fileName (tasks ! i)) = Some (blob (tasks ! i))"
        using call by simp
      then show "map_of (archive ?run) (fileName (tasks ! i)) = Some (blob (tasks ! i))"
        by (simp add: archive_def map_of_foldl_map_set)
    qed
  qed
  show ?thesis
    using calls count failed by simp
qed

theorem failed_resize_keeps_source_blob_witness:
  "(0::nat) < length [exampleTask ''a.png'' 64 64 \<lparr>blob := ''broken'', isResize := True\<rparr>,
                      exampleTask ''b.png'' 64 64 \<lparr>isResize := True\<rparr>]
   \<and> resizeImage examplePipeline ''broken'' 64 64 True = None
   \<and> fileCalls (generateOptimizedZip examplePipeline True
         [exampleTask ''a.png'' 64 64 \<lparr>blob := ''broken'', isResize := True\<rparr>,
          exampleTask ''b.png'' 64 64 \<lparr>isResize := True\<rparr>] True) ! 0
       = (''a.png'', ''broken'')
   \<and> map_of (archive (generateOptimizedZip examplePipeline True
         [exampleTask ''a.png'' 64 64 \<lparr>blob := ''broken'', isResize := True\<rparr>,
          exampleTask ''b.png'' 64 64 \<lparr>isResize := True\<rparr>] True)) ''a.png''
       = Some ''broken''
   \<and> completed (generateOptimizedZip examplePipeline True
         [exampleTask ''a.png'' 64 64 \<lparr>blob := ''broken'', isResize := True\<rparr>,
          exampleTask ''b.png'' 64 64 \<lparr>isResize := True\<rparr>] True) = 2"
proof -
  let ?tasks = "[exampleTask ''a.png'' 64 64 \<lparr>blob := ''broken'', isResize := True\<rparr>,
                 exampleTask ''b.png'' 64 64 \<lparr>isResize := True\<rparr>]"
  have fails: "resizeImage examplePipeline ''broken'' 64 64 True = None"
    by (simp add: resizeImage_throws examplePipeline_def)
  have hyp: "isResize (?tasks ! 0)
      \<and> resizeImage examplePipeline (blob (?tasks ! 0)) (targetWidth (?tasks ! 0))
            (targetHeight (?tasks ! 0)) True = None"
    using fails by (simp add: exampleTask_def)
  have last: "\<forall>j. 0 < j \<and> j < length ?tasks \<longrightarrow> fileName (?tasks ! j) \<noteq> fileName (?tasks ! 0)"
    by (auto simp: exampleTask_def less_Suc_eq)
  have len: "(0::nat) < length ?tasks" by simp
  from failed_resize_keeps_source_blob [of examplePipeline ?tasks True]
  have all: "completed (generateOptimizedZip examplePipeline True ?tasks True) = length ?tasks"
    and each: "\<forall>i < length ?tasks.
         isResize (?tasks ! i)
         \<and> resizeImage examplePipeline (blob (?tasks ! i)) (targetWidth (?tasks ! i))
               (targetHeight (?tasks ! i)) True = None
         \<longrightarrow> fileCalls (generateOptimizedZip examplePipeline True ?tasks True) ! i
               = (fileName (?tasks ! i), blob (?tasks ! i))
             \<and> ((\<forall>j. i < j \<and> j < length ?tasks \<longrightarrow> fileName (?tasks ! j) \<noteq> fileName (?tasks ! i))
                  \<longrightarrow> map_of (archive (generateOptimizedZip examplePipeline True ?tasks True))
                        (fileName (?tasks ! i)) = Some (blob (?tasks ! i)))"
    by blast+
  from each len hyp last
  have "fileCalls (generateOptimizedZip examplePipeline True ?tasks True) ! 0
          = (fileName (?tasks ! 0), blob (?tasks ! 0))
        \<and> map_of (archive (generateOptimizedZip examplePipeline True ?tasks True))
                        (fileName (?tasks ! 0)) = Some (blob (?tasks ! 0))"
    by blast
  then show ?thesis
    using fails all by (simp add: exampleTask_def)
qed

section \<open>Atlas parser (src/utils/atlasParser.ts)\<close>

text \<open>
  The manifest is ASCII text; its strings are lists of 8-bit characters. \<open>trim\<close>
  removes the ASCII white space (tab, line feed, vertical tab, form feed, carriage
  return, space) at both ends and \<open>toLowerCase\<close> maps \<open>A\<close> to \<open>Z\<close> to lower case.
\<close>

definition isWhiteSpace :: "char \<Rightarrow> bool" where
  "isWhiteSpace c \<longleftrightarrow> (let n = (of_char c :: nat) in (9 \<le> n \<and> n \<le> 13) \<or> n = 32)"

definition trim :: "string \<Rightarrow> string" where
  "trim s = rev (dropWhile isWhiteSpace (rev (dropWhile isWhiteSpace s)))"

definition toLowerChar :: "char \<Rightarrow> char" where
  "toLowerChar c = (let n = (of_char c :: nat) in
                    if 65 \<le> n \<and> n \<le> 90 then char_of (n + 32) else c)"

definition toLowerCase :: "string \<Rightarrow> string" where
  "toLowerCase s = map toLowerChar s"

text \<open>\<open>s.replace(/\\/g, '/')\<close>\<close>

definition slashes :: "string \<Rightarrow> string" where
  "slashes s = map (\<lambda>c. if c = CHR 0x5C then CHR ''/'' else c) s"

definition extensions :: "string list" where
  "extensions = [''.png'', ''.jpg'', ''.jpeg'', ''.webp'']"

text \<open>
  A numeric field of a region holds what \<open>parseInt\<close> or a destructuring assignment leaves
  there: an integer, \<open>NaN\<close>, or \<open>undefined\<close>.
\<close>

datatype jsnum = Num int | NaN | Undefined

record AtlasRegion =
  region_pageName :: string
  region_name :: string
  region_rotated :: bool
  region_x :: jsnum
  region_y :: jsnum
  region_width :: jsnum
  region_height :: jsnum
  region_originalWidth :: jsnum
  region_originalHeight :: jsnum
  region_offsetX :: jsnum
  region_offsetY :: jsnum
  region_index :: jsnum

text \<open>\<open>s.split(c)\<close> for a one-character separator: never empty, \<open>"".split(c)\<close> is \<open>[""]\<close>.\<close>

fun splitAt :: "char \<Rightarrow> string \<Rightarrow> string list" where
  "splitAt c [] = [[]]"
| "splitAt c (d # ds) =
     (if d = c then [] # splitAt c ds
      else (case splitAt c ds of
              piece # pieces \<Rightarrow> (d # piece) # pieces
            | [] \<Rightarrow> [[d]]))"

text \<open>
  \<open>content.split(/\r?\n/)\<close>: the separator is a line feed together with one carriage
  return in front of it, if there is one.
\<close>

definition dropCR :: "string \<Rightarrow> string" where
  "dropCR piece = (if piece \<noteq> [] \<and> last piece = CHR 0x0D then butlast piece else piece)"

definition splitLines :: "string \<Rightarrow> string list" where
  "splitLines content =
     (let pieces = splitAt (CHR 0x0A) content
      in map dropCR (butlast pieces) @ [last pieces])"

text \<open>
  \<open>parseInt(s)\<close> without a radix: leading white space, an optional sign, an optional
  \<open>0x\<close> prefix for base 16, then the longest run of digits; \<open>NaN\<close> when there is no digit.
\<close>

definition digitValue :: "char \<Rightarrow> nat option" where
  "digitValue c =
     (let n = (of_char c :: nat) in
      if 48 \<le> n \<and> n \<le> 57 then Some (n - 48)
      else if 97 \<le> n \<and> n \<le> 122 then Some (n - 87)
      else if 65 \<le> n \<and> n \<le> 90 then Some (n - 55)
      else None)"

definition isDigitIn :: "nat \<Rightarrow> char \<Rightarrow> bool" where
  "isDigitIn radix c = (case digitValue c of Some v \<Rightarrow> v < radix | None \<Rightarrow> False)"

definition digitsValue :: "nat \<Rightarrow> string \<Rightarrow> int" where
  "digitsValue radix ds =
     foldl (\<lambda>acc d. acc * int radix + int (case digitValue d of Some v \<Rightarrow> v | None \<Rightarrow> 0)) 0 ds"

definition parseInt :: "string \<Rightarrow> jsnum" where
  "parseInt s =
     (let s1 = dropWhile isWhiteSpace s;
          negative = (take 1 s1 = ''-'');
          s2 = (if take 1 s1 = ''-'' \<or> take 1 s1 = ''+'' then drop 1 s1 else s1);
          hex = (take 2 s2 = ''0x'' \<or> take 2 s2 = ''0X'');
          radix = (if hex then 16 else 10);
          s3 = (if hex then drop 2 s2 else s2);
          ds = takeWhile (isDigitIn radix) s3
      in if ds = [] then NaN
         else Num ((if negative then -1 else 1) * digitsValue radix ds))"

text \<open>\<open>const [a, b] = val.split(',').map(n => parseInt(n.trim()))\<close>\<close>

definition parsePair :: "string \<Rightarrow> jsnum \<times> jsnum" where
  "parsePair val =
     (let parts = map (\<lambda>n. parseInt (trim n)) (splitAt CHR '','' val)
      in (case parts of
            [] \<Rightarrow> (Undefined, Undefined)
          | [a] \<Rightarrow> (a, Undefined)
          | a # b # rest \<Rightarrow> (a, b)))"

text \<open>
  \<open>cleanseAtlasPageName\<close>. The regular expression \<open>/(\.(png|jpg|jpeg|webp))$/i\<close> matches
  when the name ends, in any letter case, with one of the four extensions.
\<close>

definition trailingExtension :: "string \<Rightarrow> string option" where
  "trailingExtension name = find (\<lambda>ext. suffix ext (toLowerCase name)) extensions"

function stripExtensions :: "string \<Rightarrow> string" where
  "stripExtensions base =
     (case trailingExtension base of
        Some ext \<Rightarrow> stripExtensions (take (length base - length ext) base)
      | None \<Rightarrow> base)"
  by pat_completeness auto
termination
proof (relation "measure length", goal_cases)
  case 1
  then show ?case by simp
next
  case (2 base ext)
  then have "ext \<in> set extensions" and sfx: "suffix ext (toLowerCase base)"
    by (auto simp: trailingExtension_def find_Some_iff)
  then have "0 < length ext"
    by (auto simp: extensions_def)
  moreover have "length ext \<le> length base"
    using suffix_length_le [OF sfx] by (simp add: toLowerCase_def)
  ultimately have "length base - length ext < length base" by arith
  then show ?case by simp
qed

declare stripExtensions.simps [simp del]

definition cleanseAtlasPageName :: "string \<Rightarrow> string" where
  "cleanseAtlasPageName pageFileName =
     (let name = slashes (trim pageFileName);
          ext = (case trailingExtension name of Some matched \<Rightarrow> matched | None \<Rightarrow> ''.png'');
          base = stripExtensions name
      in base @ ext)"

definition propertyKeys :: "string list" where
  "propertyKeys = [''rotate'', ''xy'', ''size'', ''orig'', ''offset'', ''index'',
                   ''format'', ''filter'', ''repeat'', ''bounds'', ''split'', ''pad'']"

text \<open>The parser's variables apart from the map.\<close>

record Cursor =
  currentPage :: "string option"
  currentRegion :: "AtlasRegion option"
  currentRegionName :: "string option"

text \<open>A property line applied to the current region.\<close>

definition applyProperty :: "string \<Rightarrow> string \<Rightarrow> AtlasRegion \<Rightarrow> AtlasRegion" where
  "applyProperty key val region =
     (if key = ''rotate'' then region\<lparr>region_rotated := (val = ''true'')\<rparr>
      else if key = ''xy'' then
        (case parsePair val of (a, b) \<Rightarrow> region\<lparr>region_x := a, region_y := b\<rparr>)
      else if key = ''size'' then
        (case parsePair val of (a, b) \<Rightarrow> region\<lparr>region_width := a, region_height := b\<rparr>)
      else if key = ''orig'' then
        (case parsePair val of (a, b) \<Rightarrow>
           region\<lparr>region_originalWidth := a, region_originalHeight := b\<rparr>)
      else if key = ''offset'' then
        (case parsePair val of (a, b) \<Rightarrow> region\<lparr>region_offsetX := a, region_offsetY := b\<rparr>)
      else if key = ''index'' then region\<lparr>region_index := parseInt val\<rparr>
      else region)"

text \<open>
  The region at hand, if there is one with a name: the argument of the \<open>map.set\<close> call
  that ends a region.
\<close>

definition pending :: "Cursor \<Rightarrow> (string \<times> AtlasRegion) option" where
  "pending cur =
     (case (currentRegion cur, currentRegionName cur) of
        (Some region, Some name) \<Rightarrow> (if name = [] then None else Some (name, region))
      | _ \<Rightarrow> None)"

text \<open>
  The body of the loop for one trimmed line: the \<open>map.set\<close> call it makes, if any, and
  the variables afterwards.
\<close>

definition stepLine :: "Cursor \<Rightarrow> string \<Rightarrow> (string \<times> AtlasRegion) option \<times> Cursor" where
  "stepLine cur line =
     (if length line = 0 then
        (case pending cur of
           Some entry \<Rightarrow>
             (Some entry, \<lparr>currentPage = None, currentRegion = None, currentRegionName = None\<rparr>)
         | None \<Rightarrow> (None, cur\<lparr>currentPage := None\<rparr>))
      else if currentPage cur = None then
        (None, cur\<lparr>currentPage := Some (cleanseAtlasPageName line)\<rparr>)
      else
        let hasColon = (CHR '':'' \<in> set line);
            key = (if hasColon then trim (takeWhile (\<lambda>c. c \<noteq> CHR '':'') line) else '''');
            val = (if hasColon then trim (drop 1 (dropWhile (\<lambda>c. c \<noteq> CHR '':'') line))
                   else '''');
            isProperty = (hasColon \<and> key \<in> set propertyKeys)
        in if isProperty then
             (case currentRegion cur of
                Some region \<Rightarrow> (None, cur\<lparr>currentRegion := Some (applyProperty key val region)\<rparr>)
              | None \<Rightarrow> (None, cur))
           else
             (pending cur,
              cur\<lparr>currentRegionName := Some line,
                  currentRegion := Some
                    \<lparr>region_pageName = (case currentPage cur of Some page \<Rightarrow> page | None \<Rightarrow> ''''),
                     region_name = line, region_rotated = False,
                     region_x = Num 0, region_y = Num 0,
                     region_width = Num 0, region_height = Num 0,
                     region_originalWidth = Num 0, region_originalHeight = Num 0,
                     region_offsetX = Num 0, region_offsetY = Num 0,
                     region_index = Num (-1)\<rparr>\<rparr>))"

text \<open>The loop over the lines, and the final flush behind it.\<close>

fun parseLines ::
  "string list \<Rightarrow> Cursor \<Rightarrow> (string \<times> AtlasRegion) list \<Rightarrow> (string \<times> AtlasRegion) list" where
  "parseLines [] cur amap =
     (case pending cur of Some (name, region) \<Rightarrow> map_set name region amap | None \<Rightarrow> amap)"
| "parseLines (line # lines) cur amap =
     (case stepLine cur (trim line) of
        (Some (name, region), cur') \<Rightarrow> parseLines lines cur' (map_set name region amap)
      | (None, cur') \<Rightarrow> parseLines lines cur' amap)"

definition parseAtlas :: "string \<Rightarrow> (string \<times> AtlasRegion) list" where
  "parseAtlas content =
     parseLines (splitLines content)
       \<lparr>currentPage = None, currentRegion = None, currentRegionName = None\<rparr> []"

text \<open>
  The region declarations of a manifest, in the order of their declaration: each with the
  data it holds when the parser stores it.
\<close>

fun declaredFrom :: "string list \<Rightarrow> Cursor \<Rightarrow> (string \<times> AtlasRegion) list" where
  "declaredFrom [] cur = (case pending cur of Some entry \<Rightarrow> [entry] | None \<Rightarrow> [])"
| "declaredFrom (line # lines) cur =
     (case stepLine cur (trim line) of
        (Some entry, cur') \<Rightarrow> entry # declaredFrom lines cur'
      | (None, cur') \<Rightarrow> declaredFrom lines cur')"

definition regionDeclarations :: "string \<Rightarrow> (string \<times> AtlasRegion) list" where
  "regionDeclarations content =
     declaredFrom (splitLines content)
       \<lparr>currentPage = None, currentRegion = None, currentRegionName = None\<rparr>"

definition newline :: string where
  "newline = [CHR 0x0A]"

definition exampleManifest :: string where
  "exampleManifest =
     ''one.png'' @ newline @ ''size: 64,64'' @ newline @ ''format: RGBA8888'' @ newline
     @ ''sword'' @ newline @ ''  rotate: false'' @ newline @ ''  xy: 2, 4'' @ newline
     @ ''  size: 10, 20'' @ newline @ newline
     @ ''two.png.png'' @ newline @ ''sword'' @ newline @ ''  rotate: true'' @ newline
     @ ''  xy: 30, 40'' @ newline @ ''  index: 0x10'' @ newline
     @ ''shield'' @ newline @ ''  xy: 7'' @ newline"

section \<open>Properties of the atlas parser\<close>

lemma parseLines_declared:
  "parseLines lines cur amap =
     foldl (\<lambda>entries (name, region). map_set name region entries) amap (declaredFrom lines cur)"
proof (induction lines arbitrary: cur amap)
  case Nil
  then show ?case by (simp split: option.splits)
next
  case (Cons line lines)
  obtain stored cur' where step: "stepLine cur (trim line) = (stored, cur')"
    by (cases "stepLine cur (trim line)")
  show ?case
  proof (cases stored)
    case None
    then show ?thesis using step by (simp add: Cons.IH)
  next
    case (Some entry)
    obtain name region where entry: "entry = (name, region)" by (cases entry)
    show ?thesis using step Some entry by (simp add: Cons.IH)
  qed
qed

text \<open>
  C10. The parser keeps one record per region name. For every manifest and every name that
  the manifest declares, once or several times, on one page or on several, the result holds
  exactly one record under that name, and it is the record of the last declaration.
\<close>

theorem parseAtlas_keeps_last_declaration:
  assumes "name \<in> fst ` set (regionDeclarations content)"
  shows "filter (\<lambda>entry. fst entry = name) (parseAtlas content)
           = [last (filter (\<lambda>decl. fst decl = name) (regionDeclarations content))]"
proof -
  let ?decls = "regionDeclarations content"
  let ?same = "filter (\<lambda>decl. fst decl = name) ?decls"
  have result: "parseAtlas content
      = foldl (\<lambda>entries (name, region). map_set name region entries) [] ?decls"
    by (simp add: parseAtlas_def regionDeclarations_def parseLines_declared)
  have some: "?same \<noteq> []"
    using assms by (auto simp: filter_empty_conv)
  have "map_of (parseAtlas content) name = Some (snd (last ?same))"
    using some by (simp add: result map_of_foldl_map_set map_of_rev_last)
  moreover have "distinct (map fst (parseAtlas content))"
    unfolding result by (rule distinct_foldl_map_set) simp
  ultimately have "filter (\<lambda>entry. fst entry = name) (parseAtlas content)
      = [(name, snd (last ?same))]"
    by (rule filter_key_distinct [rotated])
  moreover have "fst (last ?same) = name"
    using some by (rule fst_last_filter)
  ultimately show ?thesis
    by (metis prod.collapse)
qed

theorem parseAtlas_keeps_last_declaration_witness:
  "''sword'' \<in> fst ` set (regionDeclarations exampleManifest)
   \<and> map (region_pageName \<circ> snd)
         (filter (\<lambda>decl. fst decl = ''sword'') (regionDeclarations exampleManifest))
       = [''one.png'', ''two.png'']
   \<and> map (region_pageName \<circ> snd)
         (filter (\<lambda>entry. fst entry = ''sword'') (parseAtlas exampleManifest))
       = [''two.png'']
   \<and> map (region_x \<circ> snd)
         (filter (\<lambda>entry. fst entry = ''sword'') (parseAtlas exampleManifest))
       = [Num 30]"
proof -
  have declared: "''sword'' \<in> fst ` set (regionDeclarations exampleManifest)"
    by code_simp
  have twice: "map (region_pageName \<circ> snd)
         (filter (\<lambda>decl. fst decl = ''sword'') (regionDeclarations exampleManifest))
       = [''one.png'', ''two.png'']"
    by code_simp
  have later: "(region_pageName \<circ> snd)
       (last (filter (\<lambda>decl. fst decl = ''sword'') (regionDeclarations exampleManifest)))
       = ''two.png''"
       "(region_x \<circ> snd)
       (last (filter (\<lambda>decl. fst decl = ''sword'') (regionDeclarations exampleManifest)))
       = Num 30"
    by code_simp+
  have "filter (\<lambda>entry. fst entry = ''sword'') (parseAtlas exampleManifest)
          = [last (filter (\<lambda>decl. fst decl = ''sword'') (regionDeclarations exampleManifest))]"
    using parseAtlas_keeps_last_declaration [OF declared] .
  then show ?thesis
    using declared twice later by simp
qed

end
